theory Spec2Isabelle
  imports Complex_Main "HOL-Library.Multiset"
begin

section \<open>Decoding strategies and the generation loop of decoding.ipynb\<close>

text \<open>
  The notebook computes on torch tensors of floats. The embedding reads a one-dimensional
  tensor as a \<open>real list\<close> and a token id as a \<open>nat\<close>: arithmetic is exact, so
  rounding, \<open>nan\<close> and \<open>inf\<close> are outside the model. The one place where the notebook can
  produce \<open>nan\<close> or \<open>inf\<close> from finite numbers, the division by a zero sum, is written out
  (\<open>renormalize\<close>).

  Three torch functions are used and not defined by the notebook:
  \<^item> \<open>torch.sort(probs, descending=True)\<close>: the permutation it returns is the parameter
    \<open>srt\<close>; its contract (\<open>is_argsort_desc\<close>) is a hypothesis where a proof needs it,
    since torch does not promise an order among equal entries;
  \<^item> \<open>Tensor.multinomial(num_samples=1)\<close>: the index it draws is the parameter \<open>draw\<close>,
    a function of the weights and of a random state that it returns updated;
  \<^item> \<open>Tensor.argmax()\<close>: a left-to-right scan that keeps the first maximum, as torch
    documents it.
\<close>

subsection \<open>Errors\<close>

datatype error = IndexError | RuntimeError

subsection \<open>Tensor operations\<close>

text \<open>Modelled from the spec: \<open>probs.argmax()\<close> is torch's and not part of the notebook.
  Section 4.1 asks for the first index that attains the maximum, which is what torch
  documents. The scan keeps the best index and value seen so far and replaces them only
  on a strictly larger entry. An empty tensor raises.\<close>

fun argmax_from :: "nat \<Rightarrow> real \<Rightarrow> nat \<Rightarrow> real list \<Rightarrow> nat" where
  "argmax_from best_i best_v i [] = best_i"
| "argmax_from best_i best_v i (x # xs) =
     (if best_v < x then argmax_from i x (Suc i) xs
      else argmax_from best_i best_v (Suc i) xs)"

definition argmax :: "real list \<Rightarrow> error + nat" where
  "argmax probs = (case probs of [] \<Rightarrow> Inl RuntimeError | x # xs \<Rightarrow> Inr (argmax_from 0 x 1 xs))"

text \<open>\<open>torch.cumsum(sorted_probs, dim=-1)\<close>: the running sums, one per entry.\<close>

fun cumsum_acc :: "real \<Rightarrow> real list \<Rightarrow> real list" where
  "cumsum_acc a [] = []"
| "cumsum_acc a (x # xs) = (a + x) # cumsum_acc (a + x) xs"

definition cumsum :: "real list \<Rightarrow> real list" where
  "cumsum xs = cumsum_acc 0 xs"

text \<open>\<open>probs[idxs] = 0.0\<close>: every listed position is overwritten with zero. The positions
  come from \<open>torch.sort\<close> and are in range.\<close>

definition zero_at :: "nat list \<Rightarrow> real list \<Rightarrow> real list" where
  "zero_at idxs probs = fold (\<lambda>i ps. ps[i := 0]) idxs probs"

text \<open>\<open>sorted_indices[idx_to_suppress == True]\<close>: the entries under a true mask bit.\<close>

definition masked_select :: "'a list \<Rightarrow> bool list \<Rightarrow> 'a list" where
  "masked_select xs bs = map fst (filter snd (zip xs bs))"

text \<open>\<open>sorted_indices[self.k:]\<close>: Python's slice; a negative start counts from the end and
  is clipped at the front.\<close>

definition slice_from :: "int \<Rightarrow> 'a list \<Rightarrow> 'a list" where
  "slice_from k xs =
     (if k < 0 then drop (nat (int (length xs) + k)) xs else drop (nat k) xs)"

text \<open>\<open>probs / probs.sum()\<close>. Torch does not raise on a zero sum: it fills a non-empty
  tensor with \<open>nan\<close> or \<open>inf\<close>, every later comparison with \<open>nan\<close> is false, so nothing
  more is suppressed, and the \<open>multinomial\<close> that follows raises RuntimeError. The
  model reports that RuntimeError here, where the tensor stops being finite. The sum
  and the quotients are exact: the float32 rounding of the sum and of the division is
  not modelled.\<close>

definition renormalize :: "real list \<Rightarrow> error + real list" where
  "renormalize probs =
     (if probs \<noteq> [] \<and> sum_list probs = 0 then Inl RuntimeError
      else Inr (map (\<lambda>x. x / sum_list probs) probs))"

text \<open>\<open>probs.multinomial(num_samples=1)\<close>: raises on an empty tensor, on a negative weight
  and on a sum that is not positive; otherwise the random source draws.\<close>

definition multinomial ::
  "(real list \<Rightarrow> 'r \<Rightarrow> nat \<times> 'r) \<Rightarrow> real list \<Rightarrow> 'r \<Rightarrow> error + nat \<times> 'r" where
  "multinomial draw probs r =
     (if probs = [] \<or> (\<exists>x \<in> set probs. x < 0) \<or> sum_list probs \<le> 0 then Inl RuntimeError
      else Inr (draw probs r))"

text \<open>The contract of \<open>torch.sort(probs, descending=True)\<close> on its second result: a
  permutation of the positions that lists the entries in descending order.\<close>

definition is_argsort_desc :: "real list \<Rightarrow> nat list \<Rightarrow> bool" where
  "is_argsort_desc probs idxs \<longleftrightarrow>
     mset idxs = mset [0..<length probs] \<and> sorted_wrt (\<lambda>a b. b \<le> a) (map (\<lambda>i. probs ! i) idxs)"

text \<open>One sort that meets the contract: the stable one, equal entries by ascending index.\<close>

definition stable_argsort_desc :: "real list \<Rightarrow> nat list" where
  "stable_argsort_desc probs = sort_key (\<lambda>i. - (probs ! i)) [0..<length probs]"

text \<open>The contract of the random source: on weights that \<open>multinomial\<close> accepts it
  returns a position of positive weight.\<close>

definition draw_in_support :: "(real list \<Rightarrow> 'r \<Rightarrow> nat \<times> 'r) \<Rightarrow> bool" where
  "draw_in_support draw \<longleftrightarrow>
     (\<forall>probs r. fst (draw probs r) < length probs \<and> 0 < probs ! fst (draw probs r)
        \<or> probs = [] \<or> (\<exists>x \<in> set probs. x < 0) \<or> sum_list probs \<le> 0)"

text \<open>One random source that meets it: the first position of positive weight; the random
  state counts the draws.\<close>

fun first_positive :: "nat \<Rightarrow> real list \<Rightarrow> nat" where
  "first_positive i [] = i"
| "first_positive i (x # xs) = (if 0 < x then i else first_positive (Suc i) xs)"

definition draw_first :: "real list \<Rightarrow> nat \<Rightarrow> nat \<times> nat" where
  "draw_first probs r = (first_positive 0 probs, Suc r)"

text \<open>What \<open>sample\<close> expects of its argument: non-negative entries that sum to 1.\<close>

definition is_distribution :: "real list \<Rightarrow> bool" where
  "is_distribution probs \<longleftrightarrow> (\<forall>x \<in> set probs. 0 \<le> x) \<and> sum_list probs = 1"

subsection \<open>The strategies\<close>

datatype strategy =
    GreedyDecoding
  | RandomDecoding
  | TopKDecoding int
  | TopPDecoding real
  | TopKTopPDecoding int real

text \<open>\<open>TopKDecoding.sample\<close>, up to the assignment of zeros, and up to the division.\<close>

definition TopK_truncate :: "(real list \<Rightarrow> nat list) \<Rightarrow> int \<Rightarrow> real list \<Rightarrow> real list" where
  "TopK_truncate srt k probs =
     (let sorted_indices = srt probs
      in zero_at (slice_from k sorted_indices) probs)"

definition TopK_probs :: "(real list \<Rightarrow> nat list) \<Rightarrow> int \<Rightarrow> real list \<Rightarrow> error + real list" where
  "TopK_probs srt k probs = renormalize (TopK_truncate srt k probs)"

text \<open>\<open>TopPDecoding.sample\<close>: the positions to suppress, the tensor after the assignment
  of zeros, and the tensor after the division. \<open>idx_to_suppress[0] = False\<close> raises
  IndexError on an empty tensor.\<close>

definition TopP_suppressed :: "(real list \<Rightarrow> nat list) \<Rightarrow> real \<Rightarrow> real list \<Rightarrow> error + nat list" where
  "TopP_suppressed srt p probs =
     (let sorted_indices = srt probs;
          sorted_probs = map (\<lambda>i. probs ! i) sorted_indices;
          cumulative_probs = cumsum sorted_probs;
          idx_to_suppress = map (\<lambda>c. p < c) cumulative_probs
      in if idx_to_suppress = [] then Inl IndexError
         else Inr (masked_select sorted_indices (idx_to_suppress[0 := False])))"

definition TopP_truncate :: "(real list \<Rightarrow> nat list) \<Rightarrow> real \<Rightarrow> real list \<Rightarrow> error + real list" where
  "TopP_truncate srt p probs =
     (case TopP_suppressed srt p probs of
        Inl e \<Rightarrow> Inl e
      | Inr idxs \<Rightarrow> Inr (zero_at idxs probs))"

definition TopP_probs :: "(real list \<Rightarrow> nat list) \<Rightarrow> real \<Rightarrow> real list \<Rightarrow> error + real list" where
  "TopP_probs srt p probs =
     (case TopP_truncate srt p probs of
        Inl e \<Rightarrow> Inl e
      | Inr probs' \<Rightarrow> renormalize probs')"

text \<open>\<open>TopKTopPDecoding.sample\<close> up to the last division, line by line: the notebook
  repeats the two bodies inline and calls neither class.\<close>

definition TopKTopP_probs ::
  "(real list \<Rightarrow> nat list) \<Rightarrow> int \<Rightarrow> real \<Rightarrow> real list \<Rightarrow> error + real list" where
  "TopKTopP_probs srt k p probs =
     (let sorted_indices = srt probs;
          probs1 = zero_at (slice_from k sorted_indices) probs
      in case renormalize probs1 of
           Inl e \<Rightarrow> Inl e
         | Inr probs2 \<Rightarrow>
             (let sorted_indices2 = srt probs2;
                  sorted_probs = map (\<lambda>i. probs2 ! i) sorted_indices2;
                  cumulative_probs = cumsum sorted_probs;
                  idx_to_suppress = map (\<lambda>c. p < c) cumulative_probs
              in if idx_to_suppress = [] then Inl IndexError
                 else renormalize
                        (zero_at (masked_select sorted_indices2 (idx_to_suppress[0 := False]))
                           probs2)))"

text \<open>\<open>sample\<close> of each class: the tensor above, then the draw. Greedy draws nothing and
  leaves the random state as it is.\<close>

fun sample ::
  "(real list \<Rightarrow> nat list) \<Rightarrow> (real list \<Rightarrow> 'r \<Rightarrow> nat \<times> 'r) \<Rightarrow> strategy \<Rightarrow> real list \<Rightarrow> 'r
     \<Rightarrow> error + nat \<times> 'r" where
  "sample srt draw GreedyDecoding probs r =
     (case argmax probs of Inl e \<Rightarrow> Inl e | Inr token_idx \<Rightarrow> Inr (token_idx, r))"
| "sample srt draw RandomDecoding probs r = multinomial draw probs r"
| "sample srt draw (TopKDecoding k) probs r =
     (case TopK_probs srt k probs of Inl e \<Rightarrow> Inl e | Inr probs' \<Rightarrow> multinomial draw probs' r)"
| "sample srt draw (TopPDecoding p) probs r =
     (case TopP_probs srt p probs of Inl e \<Rightarrow> Inl e | Inr probs' \<Rightarrow> multinomial draw probs' r)"
| "sample srt draw (TopKTopPDecoding k p) probs r =
     (case TopKTopP_probs srt k p probs of Inl e \<Rightarrow> Inl e | Inr probs' \<Rightarrow> multinomial draw probs' r)"

text \<open>The candidates of a draw: the positions of positive weight.\<close>

definition support :: "real list \<Rightarrow> nat set" where
  "support probs = {i. i < length probs \<and> 0 < probs ! i}"

text \<open>All probability mass on one index.\<close>

definition one_hot :: "nat \<Rightarrow> nat \<Rightarrow> real list" where
  "one_hot n e = (replicate n 0)[e := 1]"

text \<open>The values that the constructors are meant for: \<open>k \<ge> 1\<close> and \<open>p\<close> in \<open>(0, 1]\<close>. The
  constructors store what they are given and check nothing.\<close>

definition valid_config :: "strategy \<Rightarrow> bool" where
  "valid_config strat =
     (case strat of
        GreedyDecoding \<Rightarrow> True
      | RandomDecoding \<Rightarrow> True
      | TopKDecoding k \<Rightarrow> 1 \<le> k
      | TopPDecoding p \<Rightarrow> 0 < p \<and> p \<le> 1
      | TopKTopPDecoding k p \<Rightarrow> 1 \<le> k \<and> 0 < p \<and> p \<le> 1)"

subsection \<open>The two steps in the words of the specification\<close>

text \<open>Section 4.1 of the specification, for the comparison with what
  \<open>TopKTopPDecoding.sample\<close> computes; nothing in the notebook is translated here.
  Top-k: sort the indices by probability, descending; zero all but the top \<open>k\<close>;
  renormalize.\<close>

definition spec_TopK_step ::
  "(real list \<Rightarrow> nat list) \<Rightarrow> int \<Rightarrow> real list \<Rightarrow> error + real list" where
  "spec_TopK_step srt k probs = renormalize (zero_at (drop (nat k) (srt probs)) probs)"

text \<open>Top-p: over the sorted order, the smallest prefix whose running sum exceeds \<open>p\<close>,
  its first element always in it (the whole order when no running sum exceeds \<open>p\<close>) ...\<close>

definition spec_nucleus_size :: "real \<Rightarrow> real list \<Rightarrow> nat" where
  "spec_nucleus_size p sorted_probs =
     min (length sorted_probs) (Suc (length (takeWhile (\<lambda>c. c \<le> p) (cumsum sorted_probs))))"

text \<open>... zero every entry outside the kept prefix; renormalize.\<close>

definition spec_TopP_step ::
  "(real list \<Rightarrow> nat list) \<Rightarrow> real \<Rightarrow> real list \<Rightarrow> error + real list" where
  "spec_TopP_step srt p probs =
     renormalize
       (zero_at (drop (spec_nucleus_size p (map (\<lambda>i. probs ! i) (srt probs))) (srt probs)) probs)"

text \<open>Top-k then top-p: the top-p step on the result of the top-k step, sorted again.\<close>

definition spec_TopK_then_TopP ::
  "(real list \<Rightarrow> nat list) \<Rightarrow> int \<Rightarrow> real \<Rightarrow> real list \<Rightarrow> error + real list" where
  "spec_TopK_then_TopP srt k p probs =
     (case spec_TopK_step srt k probs of
        Inl e \<Rightarrow> Inl e
      | Inr probs' \<Rightarrow> spec_TopP_step srt p probs')"

subsection \<open>The generation loop\<close>

text \<open>
  \<open>TextGenerator\<close> holds its collaborators. The tokenizer, the model and the softmax
  are outside the notebook and are parameters here:
  \<^item> \<open>tokenizer_encode\<close> and \<open>tokenizer_decode\<close> for \<open>self.tokenizer(...)\<close> and
    \<open>self.tokenizer.decode\<close>;
  \<^item> \<open>model\<close> for \<open>model(x).logits[0, -1]\<close>: an invocation takes the input and the state
    the model is in, and gives the logits after the last position of the input, or the
    error the forward pass raises, together with the state the model is left in. The
    state is what makes an invocation observable: a model that counts or records its
    invocations keeps the count there (the loop calls the notebook's global \<open>model\<close>,
    which the cells pass to the constructor as well);
  \<^item> \<open>softmax\<close> for \<open>F.softmax(logits / temperature, dim=0)\<close>;
  \<^item> \<open>decoding_strategy\<close> for \<open>self.decoding_strategy.sample\<close>, which threads the random
    state and may raise.
\<close>

record ('l, 'p, 'm, 'r) text_generator =
  tokenizer_encode :: "string \<Rightarrow> nat list"
  tokenizer_decode :: "nat list \<Rightarrow> string"
  eos_idx :: nat
  max_input_length :: nat
  model :: "nat list \<Rightarrow> 'm \<Rightarrow> (error + 'l) \<times> 'm"
  softmax :: "'l \<Rightarrow> real \<Rightarrow> 'p"
  decoding_strategy :: "'p \<Rightarrow> 'r \<Rightarrow> error + nat \<times> 'r"

text \<open>What is noted when an iteration of the loop starts: the full record, whether
  \<open>warnings.warn\<close> is called, the tensor that goes to the model, and the states of the
  model and of the random source before the iteration.\<close>

record ('m, 'r) step_log =
  full_record :: "nat list"
  warned :: bool
  model_input :: "nat list"
  model_before :: 'm
  rng_before :: 'r

text \<open>The local variables of \<open>generate\<close> (\<open>input_x\<close> is the variable \<open>x\<close>), the states of the
  model and of the random source, and the log of the iterations so far.\<close>

record ('m, 'r) gen_state =
  input_x :: "nat list"
  running_out :: "nat list list"
  step_count :: int
  max_length_warning_triggered :: bool
  model_state :: 'm
  rng :: 'r
  steps :: "('m, 'r) step_log list"

text \<open>How an iteration ends: an exception leaves \<open>generate\<close> (with the state it
  leaves behind), \<open>break\<close>, or the next iteration.\<close>

datatype ('m, 'r) outcome =
    Raise error "('m, 'r) gen_state"
  | Break "('m, 'r) gen_state"
  | Continue "('m, 'r) gen_state"

text \<open>Lines 70 to 74 on \<open>x\<close>: \<open>x[:, x.size(1) - self.max_input_length:]\<close> drops the front
  of \<open>x\<close> when \<open>x.size(1) > self.max_input_length\<close>.\<close>

definition clamp_view :: "('l, 'p, 'm, 'r) text_generator \<Rightarrow> nat list \<Rightarrow> nat list" where
  "clamp_view g xs =
     (if max_input_length g < length xs then drop (length xs - max_input_length g) xs else xs)"

text \<open>Lines 70 to 75 on the whole state, with the log entry of the iteration: the
  warning goes out when the input is too long and the flag is not set, and the flag is
  set whenever the input is too long.\<close>

definition clamp_state ::
  "('l, 'p, 'm, 'r) text_generator \<Rightarrow> ('m, 'r) gen_state \<Rightarrow> ('m, 'r) gen_state" where
  "clamp_state g s =
     (let exceeded = max_input_length g < length (input_x s);
          warn = (exceeded \<and> \<not> max_length_warning_triggered s);
          x1 = clamp_view g (input_x s);
          triggered = (if exceeded then True else max_length_warning_triggered s);
          entry = \<lparr>full_record = concat (running_out s), warned = warn, model_input = x1,
                    model_before = model_state s, rng_before = rng s\<rparr>
      in s\<lparr>input_x := x1, max_length_warning_triggered := triggered,
             steps := steps s @ [entry]\<rparr>)"

text \<open>The body of the \<open>while\<close> loop. \<open>torch.cat(running_out, dim=1)\<close> is \<open>concat\<close>. The
  model is invoked on \<open>x\<close> as lines 70 to 75 leave it, and the state it is left in is kept
  however the iteration ends.\<close>

definition loop_body ::
  "('l, 'p, 'm, 'r) text_generator \<Rightarrow> real \<Rightarrow> ('m, 'r) gen_state \<Rightarrow> ('m, 'r) outcome" where
  "loop_body g temperature s =
     (let s1 = clamp_state g s
      in case model g (input_x s1) (model_state s1) of
           (Inl e, m1) \<Rightarrow> Raise e (s1\<lparr>model_state := m1\<rparr>)
         | (Inr logits, m1) \<Rightarrow>
             (case decoding_strategy g (softmax g logits temperature) (rng s1) of
                Inl e \<Rightarrow> Raise e (s1\<lparr>model_state := m1\<rparr>)
              | Inr (token_idx, r1) \<Rightarrow>
                  if token_idx = eos_idx g then Break (s1\<lparr>model_state := m1, rng := r1\<rparr>)
                  else Continue
                         (s1\<lparr>model_state := m1, rng := r1,
                             running_out := running_out s1 @ [[token_idx]],
                             input_x := concat (running_out s1 @ [[token_idx]]),
                             step_count := step_count s1 + 1\<rparr>)))"

text \<open>\<open>while step_count < max_steps\<close>: every iteration that does not leave the loop
  adds one to \<open>step_count\<close>, so the loop ends.\<close>

function generate_loop ::
  "('l, 'p, 'm, 'r) text_generator \<Rightarrow> int \<Rightarrow> real \<Rightarrow> ('m, 'r) gen_state
     \<Rightarrow> error \<times> ('m, 'r) gen_state + ('m, 'r) gen_state" where
  "generate_loop g max_steps temperature s =
     (if step_count s < max_steps then
        (case loop_body g temperature s of
           Raise e s' \<Rightarrow> Inl (e, s')
         | Break s' \<Rightarrow> Inr s'
         | Continue s' \<Rightarrow> generate_loop g max_steps temperature s')
      else Inr s)"
  by pat_completeness auto
termination
  by (relation "measure (\<lambda>(g, max_steps, temperature, s). nat (max_steps - step_count s))")
     (auto simp: loop_body_def clamp_state_def Let_def split: sum.splits prod.splits if_splits)

definition initial_state ::
  "('l, 'p, 'm, 'r) text_generator \<Rightarrow> string \<Rightarrow> 'm \<Rightarrow> 'r \<Rightarrow> ('m, 'r) gen_state" where
  "initial_state g prompt m0 r0 =
     (let x = tokenizer_encode g prompt
      in \<lparr>input_x = x, running_out = [x], step_count = 0,
          max_length_warning_triggered = False, model_state = m0, rng = r0, steps = []\<rparr>)"

text \<open>\<open>generate\<close> with everything it leaves behind, and \<open>generate\<close> as the caller sees
  it: the decoded record, or the exception. \<open>m0\<close> and \<open>r0\<close> are the states in which the call
  finds the model and the random source.\<close>

definition generate_run ::
  "('l, 'p, 'm, 'r) text_generator \<Rightarrow> string \<Rightarrow> int \<Rightarrow> real \<Rightarrow> 'm \<Rightarrow> 'r
     \<Rightarrow> error \<times> ('m, 'r) gen_state + ('m, 'r) gen_state" where
  "generate_run g prompt max_steps temperature m0 r0 =
     generate_loop g max_steps temperature (initial_state g prompt m0 r0)"

definition generate ::
  "('l, 'p, 'm, 'r) text_generator \<Rightarrow> string \<Rightarrow> int \<Rightarrow> real \<Rightarrow> 'm \<Rightarrow> 'r \<Rightarrow> error + string" where
  "generate g prompt max_steps temperature m0 r0 =
     (case generate_run g prompt max_steps temperature m0 r0 of
        Inl (e, s) \<Rightarrow> Inl e
      | Inr s \<Rightarrow> Inr (tokenizer_decode g (concat (running_out s))))"

text \<open>The state in which a call ends, returned or raised.\<close>

definition final_state ::
  "error \<times> ('m, 'r) gen_state + ('m, 'r) gen_state \<Rightarrow> ('m, 'r) gen_state" where
  "final_state res = (case res of Inl (e, s) \<Rightarrow> s | Inr s \<Rightarrow> s)"

text \<open>The states the model went through: the one before each iteration, then the one in
  which the call ends. The same for the random source.\<close>

definition model_states :: "('m, 'r) gen_state \<Rightarrow> 'm list" where
  "model_states s = map model_before (steps s) @ [model_state s]"

definition rng_states :: "('m, 'r) gen_state \<Rightarrow> 'r list" where
  "rng_states s = map rng_before (steps s) @ [rng s]"

subsection \<open>A generator for concrete runs\<close>

text \<open>A stand-in for the collaborators: the tokenizer maps a character to its code and
  back; the model keeps the list of the inputs it has been invoked on, and its logits
  are left out; the distribution after the softmax is \<open>fixed_probs\<close> on every input and
  at every temperature; the strategy runs on the stable sort and on the random source
  \<open>draw_first\<close>.\<close>

definition stub_generator ::
  "nat \<Rightarrow> nat \<Rightarrow> strategy \<Rightarrow> real list \<Rightarrow> (unit, real list, nat list list, nat) text_generator" where
  "stub_generator eos m strat fixed_probs =
     \<lparr>tokenizer_encode = map of_char,
      tokenizer_decode = map char_of,
      eos_idx = eos,
      max_input_length = m,
      model = (\<lambda>xs seen. (Inr (), seen @ [xs])),
      softmax = (\<lambda>logits temperature. fixed_probs),
      decoding_strategy = sample stable_argsort_desc draw_first strat\<rparr>"

subsection \<open>Invariants of the loop\<close>

text \<open>What the log says about a call on the encoded prompt \<open>x0\<close>: entry \<open>i\<close> saw the
  first \<open>length x0 + i\<close> tokens of the present full record, the model got the clamped
  view of them, and the warning went out in the first iteration whose full record was
  too long.\<close>

definition log_ok ::
  "('l, 'p, 'm, 'r) text_generator \<Rightarrow> nat list \<Rightarrow> ('m, 'r) gen_state \<Rightarrow> bool" where
  "log_ok g x0 s \<longleftrightarrow>
     take (length x0) (concat (running_out s)) = x0
     \<and> length x0 \<le> length (concat (running_out s))
     \<and> (\<forall>i < length (steps s).
           length x0 + i \<le> length (concat (running_out s))
         \<and> full_record (steps s ! i) = take (length x0 + i) (concat (running_out s))
         \<and> model_input (steps s ! i) = clamp_view g (full_record (steps s ! i))
         \<and> (warned (steps s ! i) \<longleftrightarrow>
               max_input_length g < length x0 + i
             \<and> (\<forall>j < i. length x0 + j \<le> max_input_length g)))"

text \<open>Iteration \<open>i\<close> went on to the next one: the model, invoked on the logged input in
  its state before the iteration, returned logits and was left in its next state, and
  the strategy, on the softmax of these logits, returned the token that stands at
  position \<open>length x0 + i\<close> of the record, which is not the end-of-sequence index.\<close>

definition step_continued ::
  "('l, 'p, 'm, 'r) text_generator \<Rightarrow> real \<Rightarrow> nat list \<Rightarrow> ('m, 'r) gen_state \<Rightarrow> nat \<Rightarrow> bool" where
  "step_continued g temperature x0 s i \<longleftrightarrow>
     (\<exists>logits.
        model g (model_input (steps s ! i)) (model_states s ! i)
          = (Inr logits, model_states s ! Suc i)
      \<and> decoding_strategy g (softmax g logits temperature) (rng_states s ! i)
          = Inr (concat (running_out s) ! (length x0 + i), rng_states s ! Suc i)
      \<and> concat (running_out s) ! (length x0 + i) \<noteq> eos_idx g)"

text \<open>What holds in addition whenever the loop condition is tested: \<open>x\<close> is the whole
  record, every iteration so far appended one token and added one to the step count,
  and the flag is set when the record of some iteration was too long.\<close>

definition record_inv ::
  "('l, 'p, 'm, 'r) text_generator \<Rightarrow> nat list \<Rightarrow> ('m, 'r) gen_state \<Rightarrow> bool" where
  "record_inv g x0 s \<longleftrightarrow>
     log_ok g x0 s
     \<and> input_x s = concat (running_out s)
     \<and> length (concat (running_out s)) = length x0 + length (steps s)
     \<and> step_count s = int (length (steps s))
     \<and> (max_length_warning_triggered s \<longleftrightarrow>
          (\<exists>i < length (steps s). max_input_length g < length x0 + i))"

definition head_inv ::
  "('l, 'p, 'm, 'r) text_generator \<Rightarrow> real \<Rightarrow> nat list \<Rightarrow> 'm \<Rightarrow> 'r \<Rightarrow> ('m, 'r) gen_state \<Rightarrow> bool" where
  "head_inv g temperature x0 m0 r0 s \<longleftrightarrow>
     record_inv g x0 s
     \<and> model_states s ! 0 = m0
     \<and> rng_states s ! 0 = r0
     \<and> (\<forall>i < length (steps s). step_continued g temperature x0 s i)"

text \<open>What holds of the state in which a call ends: the model started in \<open>m0\<close> and the
  random source in \<open>r0\<close>, every iteration but the last went on to the next one, and in
  every iteration the model was invoked on the logged input and left in the state that
  comes next.\<close>

definition chain_ok ::
  "('l, 'p, 'm, 'r) text_generator \<Rightarrow> real \<Rightarrow> nat list \<Rightarrow> 'm \<Rightarrow> 'r \<Rightarrow> ('m, 'r) gen_state \<Rightarrow> bool" where
  "chain_ok g temperature x0 m0 r0 s \<longleftrightarrow>
     model_states s ! 0 = m0
     \<and> rng_states s ! 0 = r0
     \<and> (\<forall>i. Suc i < length (steps s) \<longrightarrow> step_continued g temperature x0 s i)
     \<and> (\<forall>i < length (steps s).
           snd (model g (model_input (steps s ! i)) (model_states s ! i))
             = model_states s ! Suc i)"

text \<open>How the last iteration of a call ended. A raised call: the model raised the error,
  or it returned logits and the strategy raised the error; the random source is as it
  was. A returned call: the last iteration went on and the step budget ended the loop,
  or the strategy returned the end-of-sequence index and nothing was appended.\<close>

definition ended_ok ::
  "('l, 'p, 'm, 'r) text_generator \<Rightarrow> real \<Rightarrow> nat list
     \<Rightarrow> error \<times> ('m, 'r) gen_state + ('m, 'r) gen_state \<Rightarrow> bool" where
  "ended_ok g temperature x0 res =
     (case res of
        Inl (e, s) \<Rightarrow>
          steps s \<noteq> []
          \<and> rng_states s ! length (steps s) = rng_states s ! (length (steps s) - 1)
          \<and> (fst (model g (model_input (last (steps s))) (model_states s ! (length (steps s) - 1)))
                = Inl e
              \<or> (\<exists>logits.
                    fst (model g (model_input (last (steps s)))
                           (model_states s ! (length (steps s) - 1))) = Inr logits
                  \<and> decoding_strategy g (softmax g logits temperature)
                        (rng_states s ! (length (steps s) - 1)) = Inl e))
      | Inr s \<Rightarrow>
          (length (concat (running_out s)) = length x0 + length (steps s)
           \<and> (\<forall>i < length (steps s). step_continued g temperature x0 s i))
          \<or> (steps s \<noteq> []
              \<and> Suc (length (concat (running_out s))) = length x0 + length (steps s)
              \<and> (\<exists>logits.
                    fst (model g (model_input (last (steps s)))
                           (model_states s ! (length (steps s) - 1))) = Inr logits
                  \<and> decoding_strategy g (softmax g logits temperature)
                        (rng_states s ! (length (steps s) - 1))
                      = Inr (eos_idx g, rng_states s ! length (steps s)))))"

text \<open>All of it, for the result of a call.\<close>

definition run_ok ::
  "('l, 'p, 'm, 'r) text_generator \<Rightarrow> real \<Rightarrow> nat list \<Rightarrow> 'm \<Rightarrow> 'r
     \<Rightarrow> error \<times> ('m, 'r) gen_state + ('m, 'r) gen_state \<Rightarrow> bool" where
  "run_ok g temperature x0 m0 r0 res \<longleftrightarrow>
     log_ok g x0 (final_state res)
     \<and> chain_ok g temperature x0 m0 r0 (final_state res)
     \<and> ended_ok g temperature x0 res"

section \<open>Properties\<close>

subsection \<open>Tensor operations\<close>

lemma argmax_from_inv:
  "\<lbrakk>b < length ys; ys ! b = v; \<forall>j < length ys. ys ! j \<le> v; \<forall>j < b. ys ! j < v\<rbrakk> \<Longrightarrow>
   (let r = argmax_from b v (length ys) xs in
     r < length (ys @ xs) \<and> (\<forall>j < length (ys @ xs). (ys @ xs) ! j \<le> (ys @ xs) ! r)
      \<and> (\<forall>j < r. (ys @ xs) ! j < (ys @ xs) ! r))"
proof (induction xs arbitrary: b v ys)
  case Nil
  then show ?case by (simp add: Let_def)
next
  case (Cons x xs)
  show ?case
  proof (cases "v < x")
    case True
    have "let r = argmax_from (length ys) x (length (ys @ [x])) xs in
     r < length ((ys @ [x]) @ xs) \<and> (\<forall>j < length ((ys @ [x]) @ xs). ((ys @ [x]) @ xs) ! j \<le> ((ys @ [x]) @ xs) ! r)
      \<and> (\<forall>j < r. ((ys @ [x]) @ xs) ! j < ((ys @ [x]) @ xs) ! r)"
      apply (rule Cons.IH)
      using Cons.prems True by (auto simp: nth_append less_Suc_eq)
    then show ?thesis using True by (simp add: Let_def)
  next
    case False
    have "let r = argmax_from b v (length (ys @ [x])) xs in
     r < length ((ys @ [x]) @ xs) \<and> (\<forall>j < length ((ys @ [x]) @ xs). ((ys @ [x]) @ xs) ! j \<le> ((ys @ [x]) @ xs) ! r)
      \<and> (\<forall>j < r. ((ys @ [x]) @ xs) ! j < ((ys @ [x]) @ xs) ! r)"
      apply (rule Cons.IH)
      using Cons.prems False by (auto simp: nth_append less_Suc_eq)
    then show ?thesis using False by (simp add: Let_def)
  qed
qed

lemma argmax_first_max:
  assumes "probs \<noteq> []"
  shows "\<exists>i. argmax probs = Inr i \<and> i < length probs \<and> (\<forall>j < length probs. probs ! j \<le> probs ! i)
      \<and> (\<forall>j < i. probs ! j < probs ! i)"
proof -
  obtain x xs where p: "probs = x # xs" using assms by (cases probs) auto
  have "let r = argmax_from 0 x (length [x]) xs in
     r < length ([x] @ xs) \<and> (\<forall>j < length ([x] @ xs). ([x] @ xs) ! j \<le> ([x] @ xs) ! r)
      \<and> (\<forall>j < r. ([x] @ xs) ! j < ([x] @ xs) ! r)"
    by (rule argmax_from_inv) auto
  then show ?thesis using p by (simp add: argmax_def Let_def)
qed

lemma length_zero_at: "length (zero_at idxs probs) = length probs"
  unfolding zero_at_def by (induction idxs arbitrary: probs) auto

lemma nth_zero_at:
  "i < length probs \<Longrightarrow> zero_at idxs probs ! i = (if i \<in> set idxs then 0 else probs ! i)"
  unfolding zero_at_def
proof (induction idxs arbitrary: probs)
  case Nil
  then show ?case by simp
next
  case (Cons a idxs)
  have "fold (\<lambda>i ps. ps[i := 0]) idxs (probs[a := 0]) ! i =
        (if i \<in> set idxs then 0 else (probs[a := 0]) ! i)"
    by (rule Cons.IH) (simp add: Cons.prems)
  then show ?case using Cons.prems by (auto simp: nth_list_update)
qed

lemma set_masked_select: "set (masked_select xs bs) \<subseteq> set xs"
  unfolding masked_select_def by (auto dest: set_zip_leftD)

lemma masked_select_Cons_False:
  "masked_select (x # xs) (False # bs) = masked_select xs bs"
  by (simp add: masked_select_def)

lemma argsort_stable: "is_argsort_desc probs (stable_argsort_desc probs)"
proof -
  have "sorted (map (\<lambda>i. - (probs ! i)) (stable_argsort_desc probs))"
    unfolding stable_argsort_desc_def by (rule sorted_sort_key)
  then have "sorted_wrt (\<lambda>a b. b \<le> a) (map (\<lambda>i. probs ! i) (stable_argsort_desc probs))"
    by (simp add: sorted_wrt_map)
  then show ?thesis by (simp add: is_argsort_desc_def stable_argsort_desc_def)
qed

lemma argsort_facts:
  assumes "is_argsort_desc probs idxs"
  shows "distinct idxs" "set idxs = {0..<length probs}" "length idxs = length probs"
proof -
  have m: "mset idxs = mset [0..<length probs]" using assms by (simp add: is_argsort_desc_def)
  show "distinct idxs" using m by (metis distinct_upt mset_eq_imp_distinct_iff)
  show "set idxs = {0..<length probs}" using m by (metis mset_eq_setD set_upt)
  show "length idxs = length probs" using m by (metis length_upt mset_eq_length minus_nat.diff_0)
qed

lemma nth_le_sum_list:
  "\<forall>x \<in> set xs. (0::real) \<le> x \<Longrightarrow> i < length xs \<Longrightarrow> xs ! i \<le> sum_list xs"
proof (induction xs arbitrary: i)
  case Nil
  then show ?case by simp
next
  case (Cons x xs)
  show ?case
  proof (cases i)
    case 0
    have "0 \<le> sum_list xs" using Cons.prems by (intro sum_list_nonneg) auto
    then show ?thesis using 0 by simp
  next
    case (Suc j)
    have "xs ! j \<le> sum_list xs" using Cons.prems Suc by (intro Cons.IH) auto
    moreover have "0 \<le> x" using Cons.prems by simp
    ultimately show ?thesis using Suc by simp
  qed
qed

lemma sum_list_zero_if_nonpos:
  "\<forall>x \<in> set xs. (0::real) \<le> x \<Longrightarrow> \<forall>x \<in> set xs. x \<le> 0 \<Longrightarrow> sum_list xs = 0"
  by (induction xs) auto

lemma TopP_suppressed_Cons:
  assumes "srt probs = i0 # rest"
  shows "\<exists>idxs. TopP_suppressed srt p probs = Inr idxs \<and> set idxs \<subseteq> set rest"
proof -
  obtain c cs where c: "cumsum (map (\<lambda>i. probs ! i) (i0 # rest)) = c # cs"
    by (simp add: cumsum_def)
  have "TopP_suppressed srt p probs = Inr (masked_select rest (map (\<lambda>c. p < c) cs))"
    using assms c by (simp add: TopP_suppressed_def Let_def masked_select_Cons_False)
  then show ?thesis by (simp add: set_masked_select)
qed

subsection \<open>A distribution with all its mass on one index\<close>

lemma one_hot_length: "length (one_hot n e) = n"
  by (simp add: one_hot_def)

lemma one_hot_nth: "e < n \<Longrightarrow> i < n \<Longrightarrow> one_hot n e ! i = (if i = e then 1 else 0)"
  by (simp add: one_hot_def nth_list_update)

lemma one_hot_conv: "e < n \<Longrightarrow> one_hot n e = replicate e 0 @ [1] @ replicate (n - Suc e) 0"
  by (simp add: one_hot_def upd_conv_take_nth_drop min_def)

lemma one_hot_sum: "e < n \<Longrightarrow> sum_list (one_hot n e) = 1"
  by (simp add: one_hot_conv sum_list_replicate)

lemma one_hot_nonneg: "e < n \<Longrightarrow> \<forall>x \<in> set (one_hot n e). 0 \<le> x"
  by (auto simp: one_hot_conv)

lemma one_hot_ne: "e < n \<Longrightarrow> one_hot n e \<noteq> []"
  by (simp add: one_hot_conv)

lemma zero_at_one_hot:
  assumes "e < n" "e \<notin> set idxs"
  shows "zero_at idxs (one_hot n e) = one_hot n e"
proof (rule nth_equalityI)
  show "length (zero_at idxs (one_hot n e)) = length (one_hot n e)" by (rule length_zero_at)
next
  fix i assume "i < length (zero_at idxs (one_hot n e))"
  then have i: "i < n" by (simp add: length_zero_at one_hot_length)
  then show "zero_at idxs (one_hot n e) ! i = one_hot n e ! i"
    using assms by (auto simp: nth_zero_at one_hot_length one_hot_nth)
qed

lemma renormalize_one_hot: "e < n \<Longrightarrow> renormalize (one_hot n e) = Inr (one_hot n e)"
  by (simp add: renormalize_def one_hot_sum)

lemma argsort_one_hot:
  assumes e: "e < n" and srt: "is_argsort_desc (one_hot n e) idxs"
  shows "\<exists>rest. idxs = e # rest \<and> e \<notin> set rest"
proof -
  note f = argsort_facts[OF srt]
  have "idxs \<noteq> []" using f(3) e by (auto simp: one_hot_length)
  then obtain i0 rest where ir: "idxs = i0 # rest" by (cases idxs) auto
  have d: "i0 \<notin> set rest" using f(1) ir by simp
  have i0: "i0 < n" using f(2) ir by (auto simp: one_hot_length)
  have le: "\<forall>i \<in> set rest. one_hot n e ! i \<le> one_hot n e ! i0"
    using srt ir by (simp add: is_argsort_desc_def)
  have mem: "e \<in> set (i0 # rest)" using f(2) e ir by (simp add: one_hot_length)
  have "i0 = e"
  proof (rule ccontr)
    assume ne: "i0 \<noteq> e"
    then have "e \<in> set rest" using mem by simp
    then have "one_hot n e ! e \<le> one_hot n e ! i0" using le by blast
    then show False using e i0 ne by (simp add: one_hot_nth)
  qed
  then show ?thesis using ir d by simp
qed

lemma multinomial_one_hot:
  assumes e: "e < n" and draw: "draw_in_support draw"
  shows "\<exists>r1. multinomial draw (one_hot n e) r = Inr (e, r1)"
proof -
  have ok: "\<not> (one_hot n e = [] \<or> (\<exists>x \<in> set (one_hot n e). x < 0) \<or> sum_list (one_hot n e) \<le> 0)"
    using one_hot_ne[OF e] one_hot_nonneg[OF e] one_hot_sum[OF e] by (auto simp: not_less)
  have "fst (draw (one_hot n e) r) < length (one_hot n e)
        \<and> 0 < one_hot n e ! fst (draw (one_hot n e) r)"
    using draw ok unfolding draw_in_support_def by blast
  then have "fst (draw (one_hot n e) r) = e"
    using e by (auto simp: one_hot_length one_hot_nth split: if_splits)
  then have "draw (one_hot n e) r = (e, snd (draw (one_hot n e) r))"
    by (metis prod.collapse)
  then show ?thesis using ok by (auto simp: multinomial_def)
qed

lemma TopK_one_hot:
  assumes e: "e < n" and srt: "is_argsort_desc (one_hot n e) (srt (one_hot n e))" and k: "1 \<le> k"
  shows "TopK_probs srt k (one_hot n e) = Inr (one_hot n e)"
proof -
  obtain rest where ir: "srt (one_hot n e) = e # rest" and d: "e \<notin> set rest"
    using argsort_one_hot[OF e srt] by blast
  have "slice_from k (e # rest) = drop (nat k - 1) rest"
    using k by (simp add: slice_from_def drop_Cons')
  then have "set (slice_from k (srt (one_hot n e))) \<subseteq> set rest"
    by (simp add: ir set_drop_subset)
  then have "e \<notin> set (slice_from k (srt (one_hot n e)))" using d by blast
  then show ?thesis
    by (simp add: TopK_probs_def TopK_truncate_def zero_at_one_hot[OF e] renormalize_one_hot[OF e])
qed

lemma TopP_one_hot:
  assumes e: "e < n" and srt: "is_argsort_desc (one_hot n e) (srt (one_hot n e))"
  shows "TopP_probs srt p (one_hot n e) = Inr (one_hot n e)"
proof -
  obtain rest where ir: "srt (one_hot n e) = e # rest" and d: "e \<notin> set rest"
    using argsort_one_hot[OF e srt] by blast
  obtain idxs where s: "TopP_suppressed srt p (one_hot n e) = Inr idxs" and sub: "set idxs \<subseteq> set rest"
    using TopP_suppressed_Cons[of srt "one_hot n e" e rest p, OF ir] by blast
  have "e \<notin> set idxs" using d sub by blast
  then show ?thesis
    by (simp add: TopP_probs_def TopP_truncate_def s zero_at_one_hot[OF e] renormalize_one_hot[OF e])
qed

lemma TopKTopP_probs_composition:
  "TopKTopP_probs srt k p probs =
     (case TopK_probs srt k probs of Inl e \<Rightarrow> Inl e | Inr probs' \<Rightarrow> TopP_probs srt p probs')"
  by (simp add: TopKTopP_probs_def TopK_probs_def TopK_truncate_def TopP_probs_def
      TopP_truncate_def TopP_suppressed_def Let_def split: sum.splits)

lemma sample_one_hot:
  assumes e: "e < n" and srt: "is_argsort_desc (one_hot n e) (srt (one_hot n e))"
    and draw: "draw_in_support draw" and cfg: "valid_config strat"
  shows "\<exists>r1. sample srt draw strat (one_hot n e) r = Inr (e, r1)"
proof (cases strat)
  case GreedyDecoding
  obtain i where a: "argmax (one_hot n e) = Inr i" and i: "i < length (one_hot n e)"
    and mx: "\<forall>j < length (one_hot n e). one_hot n e ! j \<le> one_hot n e ! i"
    using argmax_first_max[OF one_hot_ne[OF e]] by blast
  have "one_hot n e ! e \<le> one_hot n e ! i" using mx e by (simp add: one_hot_length)
  then have "i = e" using e i by (simp add: one_hot_length one_hot_nth split: if_splits)
  then show ?thesis using GreedyDecoding a by simp
next
  case RandomDecoding
  then show ?thesis using multinomial_one_hot[OF e draw] by simp
next
  case (TopKDecoding k)
  then have "1 \<le> k" using cfg by (simp add: valid_config_def)
  then have "TopK_probs srt k (one_hot n e) = Inr (one_hot n e)"
    using e srt by (intro TopK_one_hot)
  then show ?thesis
    using TopKDecoding multinomial_one_hot[OF e draw] by simp
next
  case (TopPDecoding p)
  have "TopP_probs srt p (one_hot n e) = Inr (one_hot n e)"
    using e srt by (rule TopP_one_hot)
  then show ?thesis
    using TopPDecoding multinomial_one_hot[OF e draw] by simp
next
  case (TopKTopPDecoding k p)
  then have "1 \<le> k" using cfg by (simp add: valid_config_def)
  then have "TopK_probs srt k (one_hot n e) = Inr (one_hot n e)"
    using e srt by (intro TopK_one_hot)
  moreover have "TopP_probs srt p (one_hot n e) = Inr (one_hot n e)"
    using e srt by (rule TopP_one_hot)
  ultimately show ?thesis
    using TopKTopPDecoding multinomial_one_hot[OF e draw]
    by (simp add: TopKTopP_probs_composition)
qed

lemma draw_first_in_support: "draw_in_support draw_first"
proof -
  have fp: "(\<exists>x \<in> set ps. 0 < x) \<Longrightarrow>
        first_positive i ps - i < length ps \<and> i \<le> first_positive i ps
        \<and> 0 < ps ! (first_positive i ps - i)" for ps :: "real list" and i
  proof (induction ps arbitrary: i)
    case Nil
    then show ?case by simp
  next
    case (Cons x ps)
    show ?case
    proof (cases "0 < x")
      case True
      then show ?thesis by simp
    next
      case False
      then have "\<exists>x \<in> set ps. 0 < x" using Cons.prems by auto
      then have ih: "first_positive (Suc i) ps - Suc i < length ps \<and> Suc i \<le> first_positive (Suc i) ps
        \<and> 0 < ps ! (first_positive (Suc i) ps - Suc i)" by (rule Cons.IH)
      then have "first_positive (Suc i) ps - i = Suc (first_positive (Suc i) ps - Suc i)" by arith
      then show ?thesis using False ih by simp
    qed
  qed
  have pos: "\<exists>x \<in> set ps. 0 < x" if "\<not> sum_list ps \<le> 0" for ps :: "real list"
  proof (rule ccontr)
    assume "\<not> (\<exists>x \<in> set ps. 0 < x)"
    then have "\<forall>x \<in> set ps. x \<le> 0" by (auto simp: not_less)
    then have "sum_list ps \<le> 0" by (induction ps) auto
    then show False using that by simp
  qed
  show ?thesis
    unfolding draw_in_support_def draw_first_def
    using fp[of _ 0] pos by fastforce
qed

subsection \<open>Which values of \<open>k\<close> and \<open>p\<close> let the strategies return\<close>

lemma argsort_top_positive:
  assumes dist: "is_distribution probs" and srt: "is_argsort_desc probs idxs"
  shows "\<exists>i0 rest. idxs = i0 # rest \<and> i0 \<notin> set rest \<and> i0 < length probs \<and> 0 < probs ! i0"
proof -
  have nonneg: "\<forall>x \<in> set probs. 0 \<le> x" and total: "sum_list probs = 1"
    using dist by (simp_all add: is_distribution_def)
  note f = argsort_facts[OF srt]
  have "probs \<noteq> []" using total by auto
  then obtain i0 rest where ir: "idxs = i0 # rest" using f(3) by (cases idxs) auto
  have d: "i0 \<notin> set rest" using f(1) ir by simp
  have i0: "i0 < length probs" using f(2) ir by auto
  have le: "\<forall>i \<in> set rest. probs ! i \<le> probs ! i0"
    using srt ir by (simp add: is_argsort_desc_def)
  have top: "probs ! j \<le> probs ! i0" if "j < length probs" for j
  proof -
    have "j \<in> set (i0 # rest)" using that f(2) ir by auto
    then show ?thesis using le by auto
  qed
  have "0 < probs ! i0"
  proof (rule ccontr)
    assume "\<not> 0 < probs ! i0"
    then have "\<forall>j < length probs. probs ! j \<le> 0" using top by fastforce
    then have "\<forall>x \<in> set probs. x \<le> 0" by (metis in_set_conv_nth)
    then have "sum_list probs = 0" using nonneg by (rule sum_list_zero_if_nonpos[rotated])
    then show False using total by simp
  qed
  then show ?thesis using ir d i0 by blast
qed

lemma renormalize_keeps_mass:
  assumes nonneg: "\<forall>x \<in> set probs. 0 \<le> x"
    and i0: "i0 < length probs" and pos: "0 < probs ! i0" and out: "i0 \<notin> set idxs"
  shows "\<exists>d. renormalize (zero_at idxs probs) = Inr d \<and> is_distribution d"
proof -
  define t where "t = zero_at idxs probs"
  have lt: "length t = length probs" by (simp add: t_def length_zero_at)
  have nn: "\<forall>x \<in> set t. 0 \<le> x"
  proof
    fix x assume "x \<in> set t"
    then obtain j where j: "j < length probs" and x: "x = t ! j"
      by (metis in_set_conv_nth lt)
    have "0 \<le> probs ! j" using nonneg j by simp
    then show "0 \<le> x" using j x by (simp add: t_def nth_zero_at)
  qed
  have "t ! i0 = probs ! i0" using i0 out by (simp add: t_def nth_zero_at)
  moreover have "t ! i0 \<le> sum_list t" using nn i0 lt by (intro nth_le_sum_list) simp_all
  ultimately have sp: "0 < sum_list t" using pos by simp
  define d where "d = map (\<lambda>x. x / sum_list t) t"
  have r: "renormalize t = Inr d" using sp by (simp add: renormalize_def d_def)
  have "sum_list d = sum_list (map (\<lambda>x. x * (1 / sum_list t)) t)" by (simp add: d_def)
  also have "\<dots> = sum_list t * (1 / sum_list t)" by (simp only: sum_list_mult_const list.map_ident)
  also have "\<dots> = 1" using sp by simp
  finally have s1: "sum_list d = 1" .
  have "\<forall>x \<in> set d. 0 \<le> x" using nn sp by (auto simp: d_def)
  then have "is_distribution d" using s1 by (simp add: is_distribution_def)
  then show ?thesis using r unfolding t_def by blast
qed

lemma multinomial_distribution:
  assumes "is_distribution d"
  shows "multinomial draw d r = Inr (draw d r)"
proof -
  have nn: "\<forall>x \<in> set d. 0 \<le> x" and s: "sum_list d = 1"
    using assms by (simp_all add: is_distribution_def)
  have "d \<noteq> []" using s by auto
  moreover have "\<not> (\<exists>x \<in> set d. x < 0)" using nn by (auto simp: not_less)
  ultimately show ?thesis using s by (simp add: multinomial_def)
qed

lemma zero_at_all:
  assumes "is_argsort_desc probs idxs"
  shows "zero_at idxs probs = replicate (length probs) 0"
proof (rule nth_equalityI)
  show "length (zero_at idxs probs) = length (replicate (length probs) (0::real))"
    by (simp add: length_zero_at)
next
  note f = argsort_facts[OF assms]
  fix i assume "i < length (zero_at idxs probs)"
  then have "i < length probs" by (simp add: length_zero_at)
  then show "zero_at idxs probs ! i = replicate (length probs) 0 ! i"
    using f(2) by (simp add: nth_zero_at)
qed

lemma slice_from_all:
  "k = 0 \<or> k \<le> - int (length xs) \<Longrightarrow> slice_from k xs = xs"
  by (auto simp: slice_from_def)

lemma slice_from_tail:
  assumes "\<not> (k = 0 \<or> k \<le> - int (length (x # xs)))"
  shows "set (slice_from k (x # xs)) \<subseteq> set xs"
proof (cases "k < 0")
  case True
  then have "0 < nat (int (length (x # xs)) + k)" using assms by simp
  then obtain j where j: "nat (int (length (x # xs)) + k) = Suc j" by (cases "nat (int (length (x # xs)) + k)") auto
  have "slice_from k (x # xs) = drop j xs" using True j by (simp add: slice_from_def)
  then show ?thesis by (simp add: set_drop_subset)
next
  case False
  then have "0 < nat k" using assms by simp
  then obtain j where j: "nat k = Suc j" by (cases "nat k") auto
  have "slice_from k (x # xs) = drop j xs" using False j by (simp add: slice_from_def)
  then show ?thesis by (simp add: set_drop_subset)
qed

lemma TopK_probs_raises:
  assumes srt: "is_argsort_desc probs (srt probs)" and ne: "probs \<noteq> []"
    and k: "k = 0 \<or> k \<le> - int (length probs)"
  shows "TopK_probs srt k probs = Inl RuntimeError"
proof -
  note f = argsort_facts[OF srt]
  have "slice_from k (srt probs) = srt probs" using k f(3) by (intro slice_from_all) simp
  then have "TopK_truncate srt k probs = replicate (length probs) 0"
    using zero_at_all[OF srt] by (simp add: TopK_truncate_def)
  then show ?thesis using ne by (simp add: TopK_probs_def renormalize_def sum_list_replicate)
qed

lemma TopK_probs_returns:
  assumes dist: "is_distribution probs" and srt: "is_argsort_desc probs (srt probs)"
    and k: "\<not> (k = 0 \<or> k \<le> - int (length probs))"
  shows "\<exists>d. TopK_probs srt k probs = Inr d \<and> is_distribution d"
proof -
  obtain i0 rest where ir: "srt probs = i0 # rest" and out: "i0 \<notin> set rest"
    and i0: "i0 < length probs" and pos: "0 < probs ! i0"
    using argsort_top_positive[OF dist srt] by blast
  have len: "length (i0 # rest) = length probs" using argsort_facts(3)[OF srt] ir by simp
  have "\<not> (k = 0 \<or> k \<le> - int (length (i0 # rest)))" using k unfolding len .
  then have "set (slice_from k (i0 # rest)) \<subseteq> set rest" by (rule slice_from_tail)
  then have "i0 \<notin> set (slice_from k (srt probs))" using out ir by auto
  moreover have "\<forall>x \<in> set probs. 0 \<le> x" using dist by (simp add: is_distribution_def)
  ultimately have "\<exists>d. renormalize (zero_at (slice_from k (srt probs)) probs) = Inr d
                       \<and> is_distribution d"
    using i0 pos by (intro renormalize_keeps_mass)
  then show ?thesis by (simp add: TopK_probs_def TopK_truncate_def)
qed

lemma TopP_probs_returns:
  assumes dist: "is_distribution probs" and srt: "is_argsort_desc probs (srt probs)"
  shows "\<exists>d. TopP_probs srt p probs = Inr d \<and> is_distribution d"
proof -
  obtain i0 rest where ir: "srt probs = i0 # rest" and out: "i0 \<notin> set rest"
    and i0: "i0 < length probs" and pos: "0 < probs ! i0"
    using argsort_top_positive[OF dist srt] by blast
  obtain idxs where s: "TopP_suppressed srt p probs = Inr idxs" and sub: "set idxs \<subseteq> set rest"
    using TopP_suppressed_Cons[of srt probs i0 rest p, OF ir] by blast
  have "i0 \<notin> set idxs" using out sub by blast
  moreover have "\<forall>x \<in> set probs. 0 \<le> x" using dist by (simp add: is_distribution_def)
  ultimately have "\<exists>d. renormalize (zero_at idxs probs) = Inr d \<and> is_distribution d"
    using i0 pos by (intro renormalize_keeps_mass)
  then show ?thesis by (simp add: TopP_probs_def TopP_truncate_def s)
qed

text \<open>What \<open>sample\<close> does on a distribution for every \<open>k\<close> and every \<open>p\<close>: top-p
  returns whatever \<open>p\<close> is, and the two strategies with a \<open>k\<close> raise the RuntimeError of
  \<open>multinomial\<close> when \<open>k = 0\<close> or \<open>k \<le> -V\<close> and return otherwise.\<close>

lemma sample_returns_or_raises:
  assumes dist: "is_distribution probs" and srt: "\<forall>ps. is_argsort_desc ps (srt ps)"
  shows "\<exists>tok r1. sample srt draw (TopPDecoding p) probs r = Inr (tok, r1)"
    and "k = 0 \<or> k \<le> - int (length probs)
         \<Longrightarrow> sample srt draw (TopKDecoding k) probs r = Inl RuntimeError"
    and "k = 0 \<or> k \<le> - int (length probs)
         \<Longrightarrow> sample srt draw (TopKTopPDecoding k p) probs r = Inl RuntimeError"
    and "\<not> (k = 0 \<or> k \<le> - int (length probs))
         \<Longrightarrow> \<exists>tok r1. sample srt draw (TopKDecoding k) probs r = Inr (tok, r1)"
    and "\<not> (k = 0 \<or> k \<le> - int (length probs))
         \<Longrightarrow> \<exists>tok r1. sample srt draw (TopKTopPDecoding k p) probs r = Inr (tok, r1)"
proof -
  have s: "is_argsort_desc ps (srt ps)" for ps using srt by simp
  have ne: "probs \<noteq> []" using dist by (auto simp: is_distribution_def)
  show "\<exists>tok r1. sample srt draw (TopPDecoding p) probs r = Inr (tok, r1)"
  proof -
    obtain d where "TopP_probs srt p probs = Inr d" and "is_distribution d"
      using TopP_probs_returns[of probs srt p, OF dist s[of probs]] by blast
    then have "sample srt draw (TopPDecoding p) probs r = Inr (draw d r)"
      by (simp add: multinomial_distribution)
    then show ?thesis by (metis prod.collapse)
  qed
  show "sample srt draw (TopKDecoding k) probs r = Inl RuntimeError"
    if "k = 0 \<or> k \<le> - int (length probs)"
    using TopK_probs_raises[of probs srt k, OF s[of probs] ne that] by simp
  show "sample srt draw (TopKTopPDecoding k p) probs r = Inl RuntimeError"
    if "k = 0 \<or> k \<le> - int (length probs)"
    using TopK_probs_raises[of probs srt k, OF s[of probs] ne that] by (simp add: TopKTopP_probs_composition)
  show "\<exists>tok r1. sample srt draw (TopKDecoding k) probs r = Inr (tok, r1)"
    if nk: "\<not> (k = 0 \<or> k \<le> - int (length probs))"
  proof -
    obtain d where "TopK_probs srt k probs = Inr d" and "is_distribution d"
      using TopK_probs_returns[of probs srt k, OF dist s[of probs] nk] by blast
    then have "sample srt draw (TopKDecoding k) probs r = Inr (draw d r)"
      by (simp add: multinomial_distribution)
    then show ?thesis by (metis prod.collapse)
  qed
  show "\<exists>tok r1. sample srt draw (TopKTopPDecoding k p) probs r = Inr (tok, r1)"
    if nk: "\<not> (k = 0 \<or> k \<le> - int (length probs))"
  proof -
    obtain d where k: "TopK_probs srt k probs = Inr d" and d: "is_distribution d"
      using TopK_probs_returns[of probs srt k, OF dist s[of probs] nk] by blast
    obtain d' where "TopP_probs srt p d = Inr d'" and "is_distribution d'"
      using TopP_probs_returns[of d srt p, OF d s[of d]] by blast
    then have "sample srt draw (TopKTopPDecoding k p) probs r = Inr (draw d' r)"
      using k by (simp add: TopKTopP_probs_composition multinomial_distribution)
    then show ?thesis by (metis prod.collapse)
  qed
qed

lemma TopK_zero_probs:
  assumes "is_argsort_desc probs (srt probs)"
  shows "TopK_probs srt 0 probs = (if probs = [] then Inr [] else Inl RuntimeError)"
proof (cases "probs = []")
  case True
  then have "zero_at (srt probs) probs = []"
    using length_zero_at[of "srt probs" probs] by simp
  then show ?thesis
    using True by (simp add: TopK_probs_def TopK_truncate_def slice_from_def renormalize_def)
next
  case False
  then show ?thesis using TopK_probs_raises[of probs srt 0, OF assms False] by simp
qed

subsection \<open>The loop body and the invariants\<close>

declare generate_loop.simps [simp del]

lemma clamp_state_fields:
  "input_x (clamp_state g s) = clamp_view g (input_x s)"
  "running_out (clamp_state g s) = running_out s"
  "step_count (clamp_state g s) = step_count s"
  "model_state (clamp_state g s) = model_state s"
  "rng (clamp_state g s) = rng s"
  "steps (clamp_state g s) =
     steps s @ [\<lparr>full_record = concat (running_out s),
                 warned = (max_input_length g < length (input_x s) \<and> \<not> max_length_warning_triggered s),
                 model_input = clamp_view g (input_x s),
                 model_before = model_state s, rng_before = rng s\<rparr>]"
  "max_length_warning_triggered (clamp_state g s) \<longleftrightarrow>
     max_length_warning_triggered s \<or> max_input_length g < length (input_x s)"
  by (auto simp: clamp_state_def Let_def)

lemma loop_body_cases:
  obtains
    (raise_model) e m1 where "model g (clamp_view g (input_x s)) (model_state s) = (Inl e, m1)"
      and "loop_body g t s = Raise e ((clamp_state g s)\<lparr>model_state := m1\<rparr>)"
  | (raise_sample) logits m1 e
      where "model g (clamp_view g (input_x s)) (model_state s) = (Inr logits, m1)"
      and "decoding_strategy g (softmax g logits t) (rng s) = Inl e"
      and "loop_body g t s = Raise e ((clamp_state g s)\<lparr>model_state := m1\<rparr>)"
  | (eos) logits m1 r1
      where "model g (clamp_view g (input_x s)) (model_state s) = (Inr logits, m1)"
      and "decoding_strategy g (softmax g logits t) (rng s) = Inr (eos_idx g, r1)"
      and "loop_body g t s = Break ((clamp_state g s)\<lparr>model_state := m1, rng := r1\<rparr>)"
  | (token) logits m1 token_idx r1
      where "model g (clamp_view g (input_x s)) (model_state s) = (Inr logits, m1)"
      and "decoding_strategy g (softmax g logits t) (rng s) = Inr (token_idx, r1)"
      and "token_idx \<noteq> eos_idx g"
      and "loop_body g t s =
             Continue ((clamp_state g s)\<lparr>model_state := m1, rng := r1,
                running_out := running_out s @ [[token_idx]],
                input_x := concat (running_out s @ [[token_idx]]),
                step_count := step_count s + 1\<rparr>)"
proof -
  obtain out m1 where call: "model g (clamp_view g (input_x s)) (model_state s) = (out, m1)"
    by (cases "model g (clamp_view g (input_x s)) (model_state s)")
  show ?thesis
  proof (cases out)
    case (Inl e)
    then have "loop_body g t s = Raise e ((clamp_state g s)\<lparr>model_state := m1\<rparr>)"
      using call by (simp add: loop_body_def Let_def clamp_state_fields)
    then show ?thesis using call Inl raise_model by simp
  next
    case (Inr logits)
    note m = call[unfolded Inr]
    show ?thesis
    proof (cases "decoding_strategy g (softmax g logits t) (rng s)")
      case (Inl e)
      then have "loop_body g t s = Raise e ((clamp_state g s)\<lparr>model_state := m1\<rparr>)"
        using m by (simp add: loop_body_def Let_def clamp_state_fields)
      with m Inl show ?thesis by (rule raise_sample)
    next
      case (Inr res)
      obtain token_idx r1 where res: "res = (token_idx, r1)" by (cases res)
      note d = Inr[unfolded res]
      show ?thesis
      proof (cases "token_idx = eos_idx g")
        case True
        have "loop_body g t s = Break ((clamp_state g s)\<lparr>model_state := m1, rng := r1\<rparr>)"
          using m d True by (simp add: loop_body_def Let_def clamp_state_fields)
        then show ?thesis using m d True eos by simp
      next
        case False
        have "loop_body g t s =
               Continue ((clamp_state g s)\<lparr>model_state := m1, rng := r1,
                  running_out := running_out s @ [[token_idx]],
                  input_x := concat (running_out s @ [[token_idx]]),
                  step_count := step_count s + 1\<rparr>)"
          using m d False by (simp add: loop_body_def Let_def clamp_state_fields)
        then show ?thesis using m d False token by simp
      qed
    qed
  qed
qed

lemma log_ok_cong:
  "running_out s' = running_out s \<Longrightarrow> steps s' = steps s \<Longrightarrow> log_ok g x0 s' = log_ok g x0 s"
  by (simp add: log_ok_def)

lemma record_inv_initial: "record_inv g (tokenizer_encode g prompt) (initial_state g prompt m0 r0)"
  by (simp add: record_inv_def log_ok_def initial_state_def Let_def)

lemma record_inv_clamp:
  assumes "record_inv g x0 s"
  shows "log_ok g x0 (clamp_state g s)"
proof -
  define rec where "rec = concat (running_out s)"
  define n where "n = length (steps s)"
  have ok: "log_ok g x0 s" and x: "input_x s = rec" and len: "length rec = length x0 + n"
    and flag: "max_length_warning_triggered s \<longleftrightarrow> (\<exists>i < n. max_input_length g < length x0 + i)"
    using assms by (simp_all add: record_inv_def rec_def n_def)
  have old: "length x0 + i \<le> length rec
         \<and> full_record (steps s ! i) = take (length x0 + i) rec
         \<and> model_input (steps s ! i) = clamp_view g (full_record (steps s ! i))
         \<and> (warned (steps s ! i) \<longleftrightarrow>
               max_input_length g < length x0 + i
             \<and> (\<forall>j < i. length x0 + j \<le> max_input_length g))" if "i < n" for i
    using ok that by (simp add: log_ok_def rec_def n_def)
  have pre: "take (length x0) rec = x0" "length x0 \<le> length rec"
    using ok by (simp_all add: log_ok_def rec_def)
  have notflag: "(\<not> max_length_warning_triggered s) \<longleftrightarrow> (\<forall>j < n. length x0 + j \<le> max_input_length g)"
    unfolding flag by (metis not_less)
  show ?thesis
    unfolding log_ok_def clamp_state_fields rec_def[symmetric]
  proof (intro conjI allI impI)
    show "take (length x0) rec = x0" by (rule pre)
    show "length x0 \<le> length rec" by (rule pre)
  next
    fix i assume "i < length (steps s @ [\<lparr>full_record = rec,
                 warned = (max_input_length g < length (input_x s) \<and> \<not> max_length_warning_triggered s),
                 model_input = clamp_view g (input_x s),
                 model_before = model_state s, rng_before = rng s\<rparr>])"
    then have i: "i < n \<or> i = n" by (auto simp: n_def)
    let ?log = "steps s @ [\<lparr>full_record = rec,
                 warned = (max_input_length g < length (input_x s) \<and> \<not> max_length_warning_triggered s),
                 model_input = clamp_view g (input_x s),
                 model_before = model_state s, rng_before = rng s\<rparr>]"
    show "length x0 + i \<le> length rec" using i old len by auto
    show "full_record (?log ! i) = take (length x0 + i) rec"
      using i old len by (auto simp: nth_append n_def)
    show "model_input (?log ! i) = clamp_view g (full_record (?log ! i))"
      using i old x by (auto simp: nth_append n_def)
    show "warned (?log ! i) \<longleftrightarrow>
               max_input_length g < length x0 + i
             \<and> (\<forall>j < i. length x0 + j \<le> max_input_length g)"
    proof (cases "i < n")
      case True
      then show ?thesis using old[OF True] by (simp add: nth_append n_def)
    next
      case False
      then have "i = n" using i by simp
      then show ?thesis using notflag x len by (simp add: nth_append n_def)
    qed
  qed
qed

lemma record_inv_continue:
  assumes inv: "record_inv g x0 s"
    and s': "s' = (clamp_state g s)\<lparr>model_state := m1, rng := r1,
                running_out := running_out s @ [[token_idx]],
                input_x := concat (running_out s @ [[token_idx]]),
                step_count := step_count s + 1\<rparr>"
  shows "record_inv g x0 s'"
proof -
  define rec where "rec = concat (running_out s)"
  define n where "n = length (steps s)"
  have x: "input_x s = rec" and len: "length rec = length x0 + n"
    and cnt: "step_count s = int n"
    and flag: "max_length_warning_triggered s \<longleftrightarrow> (\<exists>i < n. max_input_length g < length x0 + i)"
    using inv by (simp_all add: record_inv_def rec_def n_def)
  have ok: "log_ok g x0 (clamp_state g s)" using inv by (rule record_inv_clamp)
  have rec': "concat (running_out s') = rec @ [token_idx]" by (simp add: s' rec_def)
  have st: "steps s' = steps (clamp_state g s)" by (simp add: s')
  have n': "length (steps s') = Suc n" by (simp add: st clamp_state_fields n_def)
  have c: "concat (running_out (clamp_state g s)) = rec" by (simp add: clamp_state_fields rec_def)
  have ok': "log_ok g x0 s'"
    using ok unfolding log_ok_def rec' st c by (auto simp: min_def)
  have f': "max_length_warning_triggered s' \<longleftrightarrow> (\<exists>i < Suc n. max_input_length g < length x0 + i)"
    using flag x len by (auto simp: s' clamp_state_fields less_Suc_eq)
  have x': "input_x s' = concat (running_out s')" by (simp add: s')
  have cnt': "step_count s' = int (length (steps s'))" by (simp add: n') (simp add: s' cnt)
  have len': "length (concat (running_out s')) = length x0 + length (steps s')"
    by (simp add: rec' n' len)
  have f'': "max_length_warning_triggered s' \<longleftrightarrow>
          (\<exists>i < length (steps s'). max_input_length g < length x0 + i)"
    using f' by (simp only: n')
  show ?thesis
    unfolding record_inv_def using ok' x' len' cnt' f'' by blast
qed

lemma record_inv_log_ok: "record_inv g x0 s \<Longrightarrow> log_ok g x0 s"
  by (simp add: record_inv_def)

lemma length_model_states: "length (model_states s) = Suc (length (steps s))"
  by (simp add: model_states_def)

lemma length_rng_states: "length (rng_states s) = Suc (length (steps s))"
  by (simp add: rng_states_def)

lemma model_states_last: "model_states s ! length (steps s) = model_state s"
  by (simp add: model_states_def nth_append)

lemma rng_states_last: "rng_states s ! length (steps s) = rng s"
  by (simp add: rng_states_def nth_append)

text \<open>One more iteration: the log, the states and the record of \<open>s'\<close> are those of \<open>s\<close>
  with something appended, so what was said of the earlier iterations stays.\<close>

lemma step_continued_extend:
  assumes st: "steps s' = steps s @ [e]"
    and ms: "model_states s' = model_states s @ [m1]"
    and rs: "rng_states s' = rng_states s @ [r1]"
    and rc: "concat (running_out s') = concat (running_out s) @ ext"
    and i: "i < length (steps s)"
    and len: "length x0 + i < length (concat (running_out s))"
  shows "step_continued g t x0 s' i = step_continued g t x0 s i"
proof -
  have a: "steps s' ! i = steps s ! i" using i by (simp add: st nth_append)
  have b: "model_states s' ! i = model_states s ! i" "model_states s' ! Suc i = model_states s ! Suc i"
    using i by (simp_all add: ms nth_append length_model_states)
  have c: "rng_states s' ! i = rng_states s ! i" "rng_states s' ! Suc i = rng_states s ! Suc i"
    using i by (simp_all add: rs nth_append length_rng_states)
  have d: "concat (running_out s') ! (length x0 + i) = concat (running_out s) ! (length x0 + i)"
    using len by (simp add: rc nth_append)
  show ?thesis unfolding step_continued_def a b c d by (rule refl)
qed

lemma new_entry_facts:
  assumes st: "steps s' = steps s @ [e]"
    and ms: "model_states s' = model_states s @ [m1]"
    and rs: "rng_states s' = rng_states s @ [r1]"
  shows "steps s' ! length (steps s) = e"
    and "last (steps s') = e"
    and "length (steps s') = Suc (length (steps s))"
    and "model_states s' ! length (steps s) = model_state s"
    and "model_states s' ! Suc (length (steps s)) = m1"
    and "rng_states s' ! length (steps s) = rng s"
    and "rng_states s' ! Suc (length (steps s)) = r1"
    and "model_states s' ! 0 = model_states s ! 0"
    and "rng_states s' ! 0 = rng_states s ! 0"
proof -
  show "steps s' ! length (steps s) = e" by (simp add: st)
  show "last (steps s') = e" by (simp add: st)
  show "length (steps s') = Suc (length (steps s))" by (simp add: st)
  show "model_states s' ! length (steps s) = model_state s"
    by (simp add: ms nth_append length_model_states model_states_last)
  show "model_states s' ! Suc (length (steps s)) = m1"
    by (simp add: ms nth_append length_model_states)
  show "rng_states s' ! length (steps s) = rng s"
    by (simp add: rs nth_append length_rng_states rng_states_last)
  show "rng_states s' ! Suc (length (steps s)) = r1"
    by (simp add: rs nth_append length_rng_states)
  show "model_states s' ! 0 = model_states s ! 0"
    by (simp add: ms nth_append length_model_states)
  show "rng_states s' ! 0 = rng_states s ! 0"
    by (simp add: rs nth_append length_rng_states)
qed

lemma chain_ok_extend:
  assumes inv: "head_inv g t x0 m0 r0 s"
    and st: "steps s' = steps s @ [e]"
    and mi: "model_input e = clamp_view g (input_x s)"
    and ms: "model_states s' = model_states s @ [m1]"
    and rs: "rng_states s' = rng_states s @ [r1]"
    and rc: "concat (running_out s') = concat (running_out s) @ ext"
    and call: "snd (model g (clamp_view g (input_x s)) (model_state s)) = m1"
  shows "chain_ok g t x0 m0 r0 s'"
    and "\<forall>i < length (steps s). step_continued g t x0 s' i"
proof -
  define n where "n = length (steps s)"
  have len: "length (concat (running_out s)) = length x0 + n"
    and m0: "model_states s ! 0 = m0" and r0: "rng_states s ! 0 = r0"
    and old: "\<forall>i < n. step_continued g t x0 s i"
    using inv by (simp_all add: head_inv_def record_inv_def n_def)
  note nf = new_entry_facts[OF st ms rs, folded n_def]
  have keep: "step_continued g t x0 s' i" if "i < n" for i
  proof -
    have "step_continued g t x0 s' i = step_continued g t x0 s i"
      using st ms rs rc by (rule step_continued_extend) (use that len in \<open>simp_all add: n_def\<close>)
    then show ?thesis using old that by simp
  qed
  then show "\<forall>i < length (steps s). step_continued g t x0 s' i" by (simp add: n_def)
  have snd_old: "snd (model g (model_input (steps s' ! i)) (model_states s' ! i))
                   = model_states s' ! Suc i" if "i < n" for i
    using keep[OF that] unfolding step_continued_def by auto
  have snd_new: "snd (model g (model_input (steps s' ! n)) (model_states s' ! n))
                   = model_states s' ! Suc n"
    unfolding nf mi using call .
  have all: "snd (model g (model_input (steps s' ! i)) (model_states s' ! i))
                   = model_states s' ! Suc i" if "i < Suc n" for i
    using that snd_old snd_new by (cases "i = n") auto
  show "chain_ok g t x0 m0 r0 s'"
    unfolding chain_ok_def
    using keep all m0 r0 by (simp add: nf)
qed

lemma head_inv_chain_ok:
  assumes "head_inv g t x0 m0 r0 s"
  shows "chain_ok g t x0 m0 r0 s"
proof -
  have c: "\<forall>i < length (steps s). step_continued g t x0 s i"
    and m0: "model_states s ! 0 = m0" and r0: "rng_states s ! 0 = r0"
    using assms by (simp_all add: head_inv_def)
  have "snd (model g (model_input (steps s ! i)) (model_states s ! i)) = model_states s ! Suc i"
    if "i < length (steps s)" for i
    using c that unfolding step_continued_def by auto
  then show ?thesis unfolding chain_ok_def using c m0 r0 by simp
qed

lemma head_inv_initial:
  "head_inv g t (tokenizer_encode g prompt) m0 r0 (initial_state g prompt m0 r0)"
  unfolding head_inv_def
  by (simp add: record_inv_initial)
     (simp add: initial_state_def Let_def model_states_def rng_states_def)

lemma after_clamp_shape:
  assumes "steps fin = steps (clamp_state g s)" and "model_state fin = m1" and "rng fin = r1"
  shows "steps fin = steps s @ [\<lparr>full_record = concat (running_out s),
                 warned = (max_input_length g < length (input_x s) \<and> \<not> max_length_warning_triggered s),
                 model_input = clamp_view g (input_x s),
                 model_before = model_state s, rng_before = rng s\<rparr>]"
    and "model_states fin = model_states s @ [m1]"
    and "rng_states fin = rng_states s @ [r1]"
  using assms by (simp_all add: model_states_def rng_states_def clamp_state_fields)

lemma raise_run_ok:
  assumes inv: "head_inv g t x0 m0 r0 s"
    and call: "snd (model g (clamp_view g (input_x s)) (model_state s)) = m1"
    and why: "fst (model g (clamp_view g (input_x s)) (model_state s)) = Inl e
              \<or> (\<exists>logits. fst (model g (clamp_view g (input_x s)) (model_state s)) = Inr logits
                    \<and> decoding_strategy g (softmax g logits t) (rng s) = Inl e)"
  shows "run_ok g t x0 m0 r0 (Inl (e, (clamp_state g s)\<lparr>model_state := m1\<rparr>))"
proof -
  define fin where "fin = (clamp_state g s)\<lparr>model_state := m1\<rparr>"
  have sh: "steps fin = steps (clamp_state g s)" "model_state fin = m1" "rng fin = rng s"
    by (simp_all add: fin_def clamp_state_fields)
  note shape = after_clamp_shape[OF sh]
  have rc: "concat (running_out fin) = concat (running_out s) @ []"
    by (simp add: fin_def clamp_state_fields)
  have mi: "model_input \<lparr>full_record = concat (running_out s),
                 warned = (max_input_length g < length (input_x s) \<and> \<not> max_length_warning_triggered s),
                 model_input = clamp_view g (input_x s),
                 model_before = model_state s, rng_before = rng s\<rparr> = clamp_view g (input_x s)"
    by simp
  note nf = new_entry_facts[OF shape]
  have rinv: "record_inv g x0 s" using inv by (simp add: head_inv_def)
  have "log_ok g x0 fin = log_ok g x0 (clamp_state g s)"
    by (rule log_ok_cong) (simp_all add: fin_def)
  then have lo: "log_ok g x0 fin" using record_inv_clamp[OF rinv] by simp
  have ch: "chain_ok g t x0 m0 r0 fin"
    using inv shape(1) mi shape(2,3) rc call by (rule chain_ok_extend(1))
  have ne: "steps fin \<noteq> []" by (simp add: shape(1))
  have en: "ended_ok g t x0 (Inl (e, fin))"
    unfolding ended_ok_def using why by (simp add: nf mi ne)
  show ?thesis
    unfolding run_ok_def fin_def[symmetric] using lo ch en by (simp add: final_state_def)
qed

lemma break_run_ok:
  assumes inv: "head_inv g t x0 m0 r0 s"
    and call: "model g (clamp_view g (input_x s)) (model_state s) = (Inr logits, m1)"
    and samp: "decoding_strategy g (softmax g logits t) (rng s) = Inr (eos_idx g, r1)"
  shows "run_ok g t x0 m0 r0 (Inr ((clamp_state g s)\<lparr>model_state := m1, rng := r1\<rparr>))"
proof -
  define fin where "fin = (clamp_state g s)\<lparr>model_state := m1, rng := r1\<rparr>"
  have sh: "steps fin = steps (clamp_state g s)" "model_state fin = m1" "rng fin = r1"
    by (simp_all add: fin_def clamp_state_fields)
  note shape = after_clamp_shape[OF sh]
  have rc: "concat (running_out fin) = concat (running_out s) @ []"
    by (simp add: fin_def clamp_state_fields)
  have mi: "model_input \<lparr>full_record = concat (running_out s),
                 warned = (max_input_length g < length (input_x s) \<and> \<not> max_length_warning_triggered s),
                 model_input = clamp_view g (input_x s),
                 model_before = model_state s, rng_before = rng s\<rparr> = clamp_view g (input_x s)"
    by simp
  note nf = new_entry_facts[OF shape]
  have rinv: "record_inv g x0 s" using inv by (simp add: head_inv_def)
  have len: "length (concat (running_out s)) = length x0 + length (steps s)"
    using rinv by (simp add: record_inv_def)
  have "log_ok g x0 fin = log_ok g x0 (clamp_state g s)"
    by (rule log_ok_cong) (simp_all add: fin_def)
  then have lo: "log_ok g x0 fin" using record_inv_clamp[OF rinv] by simp
  have snd_call: "snd (model g (clamp_view g (input_x s)) (model_state s)) = m1"
    by (simp add: call)
  have ch: "chain_ok g t x0 m0 r0 fin"
    using inv shape(1) mi shape(2,3) rc snd_call by (rule chain_ok_extend(1))
  have ne: "steps fin \<noteq> []" by (simp add: shape(1))
  have en: "ended_ok g t x0 (Inr fin)"
    unfolding ended_ok_def using call samp len rc by (simp add: nf mi ne)
  show ?thesis
    unfolding run_ok_def fin_def[symmetric] using lo ch en by (simp add: final_state_def)
qed

lemma continue_head_inv:
  assumes inv: "head_inv g t x0 m0 r0 s"
    and call: "model g (clamp_view g (input_x s)) (model_state s) = (Inr logits, m1)"
    and samp: "decoding_strategy g (softmax g logits t) (rng s) = Inr (token_idx, r1)"
    and ne: "token_idx \<noteq> eos_idx g"
    and s': "s' = (clamp_state g s)\<lparr>model_state := m1, rng := r1,
                running_out := running_out s @ [[token_idx]],
                input_x := concat (running_out s @ [[token_idx]]),
                step_count := step_count s + 1\<rparr>"
  shows "head_inv g t x0 m0 r0 s'"
proof -
  have sh: "steps s' = steps (clamp_state g s)" "model_state s' = m1" "rng s' = r1"
    by (simp_all add: s' clamp_state_fields)
  note shape = after_clamp_shape[OF sh]
  have rc: "concat (running_out s') = concat (running_out s) @ [token_idx]"
    by (simp add: s')
  have mi: "model_input \<lparr>full_record = concat (running_out s),
                 warned = (max_input_length g < length (input_x s) \<and> \<not> max_length_warning_triggered s),
                 model_input = clamp_view g (input_x s),
                 model_before = model_state s, rng_before = rng s\<rparr> = clamp_view g (input_x s)"
    by simp
  note nf = new_entry_facts[OF shape]
  have rinv: "record_inv g x0 s" using inv by (simp add: head_inv_def)
  have len: "length (concat (running_out s)) = length x0 + length (steps s)"
    using rinv by (simp add: record_inv_def)
  have rinv': "record_inv g x0 s'" using rinv s' by (rule record_inv_continue)
  have snd_call: "snd (model g (clamp_view g (input_x s)) (model_state s)) = m1"
    by (simp add: call)
  have ch: "chain_ok g t x0 m0 r0 s'"
    using inv shape(1) mi shape(2,3) rc snd_call by (rule chain_ok_extend(1))
  have keep: "\<forall>i < length (steps s). step_continued g t x0 s' i"
    using inv shape(1) mi shape(2,3) rc snd_call by (rule chain_ok_extend(2))
  have tok: "concat (running_out s') ! (length x0 + length (steps s)) = token_idx"
    by (simp add: rc len[symmetric])
  have new: "step_continued g t x0 s' (length (steps s))"
    unfolding step_continued_def using call samp ne by (simp add: nf mi tok)
  have all: "\<forall>i < length (steps s'). step_continued g t x0 s' i"
    using keep new by (simp add: nf less_Suc_eq)
  show ?thesis
    unfolding head_inv_def using rinv' all ch by (simp add: chain_ok_def)
qed

lemma exit_run_ok:
  assumes inv: "head_inv g t x0 m0 r0 s"
  shows "run_ok g t x0 m0 r0 (Inr s)"
proof -
  have rinv: "record_inv g x0 s" using inv by (simp add: head_inv_def)
  have "ended_ok g t x0 (Inr s)"
    unfolding ended_ok_def using inv by (simp add: head_inv_def record_inv_def)
  then show ?thesis
    unfolding run_ok_def
    using record_inv_log_ok[OF rinv] head_inv_chain_ok[OF inv] by (simp add: final_state_def)
qed

lemma generate_loop_run_ok:
  "head_inv g temperature x0 m0 r0 s
   \<Longrightarrow> run_ok g temperature x0 m0 r0 (generate_loop g max_steps temperature s)"
proof (induction g max_steps temperature s rule: generate_loop.induct)
  case (1 g max_steps temperature s)
  show ?case
  proof (cases "step_count s < max_steps")
    case False
    then show ?thesis
      using exit_run_ok[OF "1.prems"] by (simp add: generate_loop.simps[of g max_steps temperature s])
  next
    case True
    show ?thesis
    proof (cases rule: loop_body_cases[of g s temperature])
      case (raise_model e m1)
      have "run_ok g temperature x0 m0 r0 (Inl (e, (clamp_state g s)\<lparr>model_state := m1\<rparr>))"
        using "1.prems" by (rule raise_run_ok) (simp_all add: raise_model(1))
      then show ?thesis
        using True raise_model(2) by (simp add: generate_loop.simps[of g max_steps temperature s])
    next
      case (raise_sample logits m1 e)
      have "run_ok g temperature x0 m0 r0 (Inl (e, (clamp_state g s)\<lparr>model_state := m1\<rparr>))"
        using "1.prems" by (rule raise_run_ok) (simp_all add: raise_sample(1,2))
      then show ?thesis
        using True raise_sample(3) by (simp add: generate_loop.simps[of g max_steps temperature s])
    next
      case (eos logits m1 r1)
      have "run_ok g temperature x0 m0 r0 (Inr ((clamp_state g s)\<lparr>model_state := m1, rng := r1\<rparr>))"
        using "1.prems" eos(1,2) by (rule break_run_ok)
      then show ?thesis
        using True eos(3) by (simp add: generate_loop.simps[of g max_steps temperature s])
    next
      case (token logits m1 token_idx r1)
      define s' where "s' = (clamp_state g s)\<lparr>model_state := m1, rng := r1,
                running_out := running_out s @ [[token_idx]],
                input_x := concat (running_out s @ [[token_idx]]),
                step_count := step_count s + 1\<rparr>"
      have b: "loop_body g temperature s = Continue s'" using token(4) by (simp add: s'_def)
      have "head_inv g temperature x0 m0 r0 s'"
        using "1.prems" token(1,2,3) s'_def by (rule continue_head_inv)
      then have "run_ok g temperature x0 m0 r0 (generate_loop g max_steps temperature s')"
        using "1.IH"[OF True b] by simp
      then show ?thesis
        using True b by (simp add: generate_loop.simps[of g max_steps temperature s])
    qed
  qed
qed

lemma generate_run_ok:
  "run_ok g temperature (tokenizer_encode g prompt) m0 r0
     (generate_run g prompt max_steps temperature m0 r0)"
  unfolding generate_run_def by (rule generate_loop_run_ok) (rule head_inv_initial)

lemma generate_run_log_ok:
  "log_ok g (tokenizer_encode g prompt)
     (final_state (generate_run g prompt max_steps temperature m0 r0))"
  using generate_run_ok[of g temperature prompt m0 r0 max_steps] by (simp add: run_ok_def)

text \<open>An iteration that runs leaves an entry in the log.\<close>

lemma generate_loop_steps_grow:
  "length (steps s) \<le> length (steps (final_state (generate_loop g max_steps temperature s)))
   \<and> (step_count s < max_steps
      \<longrightarrow> length (steps s) < length (steps (final_state (generate_loop g max_steps temperature s))))"
proof (induction g max_steps temperature s rule: generate_loop.induct)
  case (1 g max_steps temperature s)
  show ?case
  proof (cases "step_count s < max_steps")
    case False
    then show ?thesis
      by (simp add: generate_loop.simps[of g max_steps temperature s] final_state_def)
  next
    case True
    show ?thesis
    proof (cases rule: loop_body_cases[of g s temperature])
      case (raise_model e m1)
      then show ?thesis
        using True by (simp add: generate_loop.simps[of g max_steps temperature s] final_state_def
            clamp_state_fields)
    next
      case (raise_sample logits m1 e)
      then show ?thesis
        using True by (simp add: generate_loop.simps[of g max_steps temperature s] final_state_def
            clamp_state_fields)
    next
      case (eos logits m1 r1)
      then show ?thesis
        using True by (simp add: generate_loop.simps[of g max_steps temperature s] final_state_def
            clamp_state_fields)
    next
      case (token logits m1 token_idx r1)
      define s' where "s' = (clamp_state g s)\<lparr>model_state := m1, rng := r1,
                running_out := running_out s @ [[token_idx]],
                input_x := concat (running_out s @ [[token_idx]]),
                step_count := step_count s + 1\<rparr>"
      have b: "loop_body g temperature s = Continue s'" using token(4) by (simp add: s'_def)
      have l: "length (steps s') = Suc (length (steps s))" by (simp add: s'_def clamp_state_fields)
      have "length (steps s') \<le> length (steps (final_state (generate_loop g max_steps temperature s')))"
        using "1.IH"[OF True b] by simp
      then show ?thesis
        using True b l by (simp add: generate_loop.simps[of g max_steps temperature s])
    qed
  qed
qed

lemma filter_at_most_one:
  assumes "\<And>i j. i < length xs \<Longrightarrow> j < length xs \<Longrightarrow> P (xs ! i) \<Longrightarrow> P (xs ! j) \<Longrightarrow> i = j"
  shows "length (filter P xs) \<le> 1"
  using assms
proof (induction xs)
  case Nil
  then show ?case by simp
next
  case (Cons x xs)
  have ih: "length (filter P xs) \<le> 1"
  proof (rule Cons.IH)
    fix i j assume "i < length xs" "j < length xs" "P (xs ! i)" "P (xs ! j)"
    then have "Suc i = Suc j" by (intro Cons.prems) simp_all
    then show "i = j" by simp
  qed
  show ?case
  proof (cases "P x")
    case False
    then show ?thesis using ih by simp
  next
    case True
    have "\<not> P y" if y: "y \<in> set xs" for y
    proof
      assume py: "P y"
      obtain k where k: "k < length xs" "xs ! k = y" using y by (auto simp: in_set_conv_nth)
      have "0 = Suc k" using True py k by (intro Cons.prems) simp_all
      then show False by simp
    qed
    then have "filter P xs = []" by (simp add: filter_empty_conv)
    then show ?thesis using True by simp
  qed
qed

lemma generate_loop_never_eos:
  assumes never: "\<forall>xs m r. \<exists>logits m1 token_idx r1. model g xs m = (Inr logits, m1)
         \<and> decoding_strategy g (softmax g logits temperature) r = Inr (token_idx, r1)
         \<and> token_idx \<noteq> eos_idx g"
  shows "\<exists>s'. generate_loop g n temperature s = Inr s'
           \<and> length (steps s') = length (steps s) + nat (n - step_count s)
           \<and> length (concat (running_out s')) = length (concat (running_out s)) + nat (n - step_count s)"
  using never
proof (induction g n temperature s rule: generate_loop.induct)
  case (1 g n temperature s)
  show ?case
  proof (cases "step_count s < n")
    case False
    then show ?thesis by (simp add: generate_loop.simps[of g n temperature s])
  next
    case True
    obtain logits m1 token_idx r1
      where m: "model g (clamp_view g (input_x s)) (model_state s) = (Inr logits, m1)"
      and d: "decoding_strategy g (softmax g logits temperature) (rng s) = Inr (token_idx, r1)"
      and ne: "token_idx \<noteq> eos_idx g"
      using "1.prems" by blast
    define s1 where "s1 = (clamp_state g s)\<lparr>model_state := m1, rng := r1,
                running_out := running_out s @ [[token_idx]],
                input_x := concat (running_out s @ [[token_idx]]),
                step_count := step_count s + 1\<rparr>"
    have b: "loop_body g temperature s = Continue s1"
      using m d ne by (simp add: loop_body_def Let_def clamp_state_fields s1_def)
    obtain s' where r: "generate_loop g n temperature s1 = Inr s'"
      and l: "length (steps s') = length (steps s1) + nat (n - step_count s1)"
      and c: "length (concat (running_out s')) = length (concat (running_out s1)) + nat (n - step_count s1)"
      using "1.IH"[OF True b "1.prems"] by blast
    have f: "length (steps s1) = length (steps s) + 1" "step_count s1 = step_count s + 1"
      "length (concat (running_out s1)) = length (concat (running_out s)) + 1"
      by (simp_all add: s1_def clamp_state_fields)
    have "generate_loop g n temperature s = Inr s'"
      using True b r by (simp add: generate_loop.simps[of g n temperature s])
    moreover have "length (steps s') = length (steps s) + nat (n - step_count s)"
      using l f True by simp
    moreover have "length (concat (running_out s')) = length (concat (running_out s)) + nat (n - step_count s)"
      using c f True by simp
    ultimately show ?thesis by blast
  qed
qed

lemma loop_stops_at_eos:
  assumes "step_count s < max_steps"
    and "model g (clamp_view g (input_x s)) (model_state s) = (Inr logits, m1)"
    and "decoding_strategy g (softmax g logits temperature) (rng s) = Inr (eos_idx g, r1)"
  shows "\<exists>s'. generate_loop g max_steps temperature s = Inr s'
            \<and> running_out s' = running_out s
            \<and> step_count s' = step_count s
            \<and> map model_input (steps s') = map model_input (steps s) @ [clamp_view g (input_x s)]
            \<and> model_state s' = m1
            \<and> rng s' = r1"
proof -
  have "loop_body g temperature s = Break ((clamp_state g s)\<lparr>model_state := m1, rng := r1\<rparr>)"
    using assms by (simp add: loop_body_def Let_def clamp_state_fields)
  then have "generate_loop g max_steps temperature s
               = Inr ((clamp_state g s)\<lparr>model_state := m1, rng := r1\<rparr>)"
    using assms by (simp add: generate_loop.simps[of g max_steps temperature s])
  then show ?thesis by (simp add: clamp_state_fields)
qed

lemma generate_first_eos:
  assumes "0 < max_steps"
    and "model g (clamp_view g (tokenizer_encode g prompt)) m0 = (Inr logits0, m1)"
    and "decoding_strategy g (softmax g logits0 temperature) r0 = Inr (eos_idx g, r1)"
  shows "generate g prompt max_steps temperature m0 r0
           = Inr (tokenizer_decode g (tokenizer_encode g prompt))
       \<and> map model_input (steps (final_state (generate_run g prompt max_steps temperature m0 r0)))
           = [clamp_view g (tokenizer_encode g prompt)]
       \<and> model_state (final_state (generate_run g prompt max_steps temperature m0 r0)) = m1"
proof -
  define s where "s = initial_state g prompt m0 r0"
  have f: "input_x s = tokenizer_encode g prompt" "rng s = r0" "step_count s = 0"
    "steps s = []" "running_out s = [tokenizer_encode g prompt]" "model_state s = m0"
    by (simp_all add: s_def initial_state_def Let_def)
  have "\<exists>s'. generate_loop g max_steps temperature s = Inr s'
            \<and> running_out s' = running_out s
            \<and> step_count s' = step_count s
            \<and> map model_input (steps s') = map model_input (steps s) @ [clamp_view g (input_x s)]
            \<and> model_state s' = m1
            \<and> rng s' = r1"
    by (rule loop_stops_at_eos[of s max_steps g logits0 m1 temperature r1]) (simp_all add: f assms)
  then obtain s' where r: "generate_loop g max_steps temperature s = Inr s'"
    and ro: "running_out s' = running_out s"
    and mi: "map model_input (steps s') = map model_input (steps s) @ [clamp_view g (input_x s)]"
    and ms: "model_state s' = m1"
    by blast
  have run: "generate_run g prompt max_steps temperature m0 r0 = Inr s'"
    by (simp add: generate_run_def s_def[symmetric] r)
  show ?thesis
    using ro mi ms by (simp add: generate_def run final_state_def f)
qed

section \<open>The claims\<close>

subsection \<open>Greedy decoding\<close>

text \<open>
  C9. \<open>GreedyDecoding.sample\<close> is a function of \<open>probs\<close> alone: on a non-empty tensor it
  returns an index that attains the maximum and that no earlier index attains (every
  earlier entry is strictly smaller), and it leaves the random state untouched. On
  \<open>[0.1, 0.7, 0.2]\<close> it returns index 1.
\<close>

theorem greedy_returns_first_maximum:
  "(probs \<noteq> [] \<longrightarrow>
      (\<exists>i. sample srt draw GreedyDecoding probs r = Inr (i, r) \<and> i < length probs
         \<and> (\<forall>j < length probs. probs ! j \<le> probs ! i)
         \<and> (\<forall>j < i. probs ! j < probs ! i)))
   \<and> sample srt draw GreedyDecoding [1/10, 7/10, 2/10] r = Inr (1, r)"
proof
  show "probs \<noteq> [] \<longrightarrow>
      (\<exists>i. sample srt draw GreedyDecoding probs r = Inr (i, r) \<and> i < length probs
         \<and> (\<forall>j < length probs. probs ! j \<le> probs ! i)
         \<and> (\<forall>j < i. probs ! j < probs ! i))"
  proof
    assume "probs \<noteq> []"
    then obtain i where "argmax probs = Inr i" and "i < length probs"
      and "\<forall>j < length probs. probs ! j \<le> probs ! i" and "\<forall>j < i. probs ! j < probs ! i"
      using argmax_first_max by blast
    then show "\<exists>i. sample srt draw GreedyDecoding probs r = Inr (i, r) \<and> i < length probs
         \<and> (\<forall>j < length probs. probs ! j \<le> probs ! i)
         \<and> (\<forall>j < i. probs ! j < probs ! i)"
      by auto
  qed
  show "sample srt draw GreedyDecoding [1/10, 7/10, 2/10] r = Inr (1, r)"
    by (simp add: argmax_def)
qed

text \<open>A tie: both entries are maximal and the lower index wins.\<close>

theorem greedy_returns_first_maximum_witness:
  "[1/2, 1/2 :: real] \<noteq> []
   \<and> sample stable_argsort_desc draw_first GreedyDecoding [1/2, 1/2] (0::nat) = Inr (0, 0)"
proof -
  obtain i where s: "sample stable_argsort_desc draw_first GreedyDecoding [1/2, 1/2] (0::nat) = Inr (i, 0)"
    and i: "i < length [1/2, 1/2 :: real]"
    and first: "\<forall>j < i. [1/2, 1/2 :: real] ! j < [1/2, 1/2] ! i"
    using greedy_returns_first_maximum[of "[1/2, 1/2]" stable_argsort_desc draw_first "0::nat"]
    by auto
  have "i = 0"
  proof (rule ccontr)
    assume "i \<noteq> 0"
    then have "i = 1" using i by simp
    then have "[1/2, 1/2 :: real] ! 0 < [1/2, 1/2] ! 1" using first by blast
    then show False by simp
  qed
  then show ?thesis using s by simp
qed

subsection \<open>Top-p decoding\<close>

text \<open>
  C3. On a tensor of non-negative entries that sum to 1, and for every \<open>p\<close>,
  \<open>TopPDecoding.sample\<close> does not raise before the draw, leaves the entry at the first
  sorted position as it was, that entry is the maximum and is positive, so the tensor
  after the assignment of zeros has a positive sum and the division is by a positive
  number.
\<close>

theorem TopP_never_suppresses_top:
  assumes dist: "is_distribution probs"
    and srt: "is_argsort_desc probs (srt probs)"
  shows "\<exists>probs'. TopP_truncate srt p probs = Inr probs'
           \<and> hd (srt probs) < length probs
           \<and> probs' ! hd (srt probs) = probs ! hd (srt probs)
           \<and> (\<forall>j < length probs. probs ! j \<le> probs ! hd (srt probs))
           \<and> 0 < probs ! hd (srt probs)
           \<and> 0 < sum_list probs'
           \<and> TopP_probs srt p probs = Inr (map (\<lambda>x. x / sum_list probs') probs')"
proof -
  have nonneg: "\<forall>x \<in> set probs. 0 \<le> x" and total: "sum_list probs = 1"
    using dist by (simp_all add: is_distribution_def)
  note f = argsort_facts[OF srt]
  have ne: "probs \<noteq> []" using total by auto
  then obtain i0 rest where ir: "srt probs = i0 # rest"
    using f(3) by (cases "srt probs") auto
  obtain idxs where s: "TopP_suppressed srt p probs = Inr idxs" and sub: "set idxs \<subseteq> set rest"
    using TopP_suppressed_Cons[of srt probs i0 rest p, OF ir] by blast
  have i0: "i0 < length probs" using f(2) ir by auto
  have notin: "i0 \<notin> set idxs" using f(1) ir sub by auto
  define probs' where "probs' = zero_at idxs probs"
  have t: "TopP_truncate srt p probs = Inr probs'"
    by (simp add: TopP_truncate_def s probs'_def)
  have keep: "probs' ! i0 = probs ! i0"
    by (simp add: probs'_def nth_zero_at i0 notin)
  have top: "probs ! j \<le> probs ! i0" if "j < length probs" for j
  proof -
    have "j \<in> set (i0 # rest)" using that f(2) ir by auto
    moreover have "\<forall>i \<in> set rest. probs ! i \<le> probs ! i0"
      using srt ir by (simp add: is_argsort_desc_def)
    ultimately show ?thesis by auto
  qed
  have pos: "0 < probs ! i0"
  proof (rule ccontr)
    assume "\<not> 0 < probs ! i0"
    then have "\<forall>j < length probs. probs ! j \<le> 0" using top by fastforce
    then have "\<forall>x \<in> set probs. x \<le> 0" by (metis in_set_conv_nth)
    then have "sum_list probs = 0" using nonneg by (rule sum_list_zero_if_nonpos[rotated])
    then show False using total by simp
  qed
  have nonneg': "\<forall>x \<in> set probs'. 0 \<le> x"
  proof
    fix x assume "x \<in> set probs'"
    then obtain j where j: "j < length probs" and x: "x = probs' ! j"
      by (metis in_set_conv_nth length_zero_at probs'_def)
    have "0 \<le> probs ! j" using nonneg j by simp
    then show "0 \<le> x" using j x by (simp add: probs'_def nth_zero_at)
  qed
  have "probs' ! i0 \<le> sum_list probs'"
    using nonneg' i0 by (intro nth_le_sum_list) (simp_all add: probs'_def length_zero_at)
  then have sum_pos: "0 < sum_list probs'" using keep pos by simp
  have d: "TopP_probs srt p probs = Inr (map (\<lambda>x. x / sum_list probs') probs')"
    using sum_pos by (simp add: TopP_probs_def t renormalize_def)
  have h: "hd (srt probs) = i0" by (simp add: ir)
  show ?thesis unfolding h using t i0 keep top pos sum_pos d by blast
qed

theorem TopP_never_suppresses_top_witness:
  "is_distribution [1/2, 3/10, 1/5]
   \<and> is_argsort_desc [1/2, 3/10, 1/5] (stable_argsort_desc [1/2, 3/10, 1/5])
   \<and> hd (stable_argsort_desc [1/2, 3/10, 1/5]) = 0
   \<and> TopP_truncate stable_argsort_desc (3/4) [1/2, 3/10, 1/5] = Inr [1/2, 0, 0]
   \<and> (\<exists>probs'. TopP_truncate stable_argsort_desc (3/4) [1/2, 3/10, 1/5] = Inr probs'
         \<and> 0 < sum_list probs')"
proof -
  have d: "is_distribution [1/2, 3/10, 1/5]" by (simp add: is_distribution_def)
  have a: "is_argsort_desc [1/2, 3/10, 1/5] (stable_argsort_desc [1/2, 3/10, 1/5])"
    by (rule argsort_stable)
  have h: "hd (stable_argsort_desc [1/2, 3/10, 1/5]) = 0"
    by (simp add: stable_argsort_desc_def)
  have t: "TopP_truncate stable_argsort_desc (3/4) [1/2, 3/10, 1/5] = Inr [1/2, 0, 0]"
    by (simp add: TopP_truncate_def TopP_suppressed_def stable_argsort_desc_def cumsum_def
        masked_select_def zero_at_def)
  have "\<exists>probs'. TopP_truncate stable_argsort_desc (3/4) [1/2, 3/10, 1/5] = Inr probs'
         \<and> 0 < sum_list probs'"
    using TopP_never_suppresses_top[of "[1/2, 3/10, 1/5]" stable_argsort_desc "3/4", OF d a]
    by blast
  then show ?thesis using d a h t by blast
qed

text \<open>
  C1. The prefix that \<open>TopPDecoding.sample\<close> keeps is one entry short of the smallest
  prefix whose running sum exceeds \<open>p\<close>. On \<open>[0.5, 0.3, 0.2]\<close> with \<open>p = 0.75\<close> the
  sorted order is \<open>[0, 1, 2]\<close> and the running sums are \<open>[0.5, 0.8, 1]\<close>: the smallest
  prefix whose sum exceeds \<open>p\<close> has two entries and sum 0.8, and the code suppresses the
  positions 1 and 2, so that the surviving mass is 0.5, which does not exceed \<open>p\<close>, and
  the draw is from \<open>[1, 0, 0]\<close>.
\<close>

theorem TopP_drops_threshold_entry:
  "stable_argsort_desc [1/2, 3/10, 1/5] = [0, 1, 2]
   \<and> cumsum (map (\<lambda>i. [1/2, 3/10, 1/5] ! i) [0, 1, 2]) = [1/2, 4/5, 1]
   \<and> TopP_suppressed stable_argsort_desc (3/4) [1/2, 3/10, 1/5] = Inr [1, 2]
   \<and> TopP_truncate stable_argsort_desc (3/4) [1/2, 3/10, 1/5] = Inr [1/2, 0, 0]
   \<and> sum_list [1/2, 0, 0 :: real] < 3/4
   \<and> TopP_probs stable_argsort_desc (3/4) [1/2, 3/10, 1/5] = Inr [1, 0, 0]"
  by (simp add: TopP_probs_def TopP_truncate_def TopP_suppressed_def stable_argsort_desc_def
      cumsum_def masked_select_def zero_at_def renormalize_def)

subsection \<open>Top-k followed by top-p\<close>

text \<open>
  C4. \<open>TopKTopPDecoding(k, p).sample\<close> does not restrict the candidates to those of the
  top-k step followed by the top-p step as section 4.1 words it. On
  \<open>[0.4, 0.3, 0.2, 0.1]\<close> with \<open>k = 2\<close> and \<open>p = 0.75\<close> the top-k step gives
  \<open>[4/7, 3/7, 0, 0]\<close> in the code as in the specification. The running sums of that are
  \<open>[4/7, 1, 1, 1]\<close>, so the smallest prefix whose sum exceeds \<open>p\<close> has two entries and the
  top-p step of the specification keeps the candidates \<open>{0, 1}\<close>. The code suppresses
  every sorted position whose own running sum exceeds \<open>p\<close>, the second one included, and
  draws from \<open>[1, 0, 0, 0]\<close>: the candidates are \<open>{0}\<close>. The lines of the code are those of
  \<open>TopKDecoding.sample\<close> followed by those of \<open>TopPDecoding.sample\<close>
  (\<open>TopKTopP_probs_composition\<close>), so this is the entry of C1 that is lost, once more.
\<close>

theorem TopKTopP_drops_threshold_entry:
  "TopK_probs stable_argsort_desc 2 [2/5, 3/10, 1/5, 1/10] = Inr [4/7, 3/7, 0, 0]
   \<and> spec_TopK_step stable_argsort_desc 2 [2/5, 3/10, 1/5, 1/10] = Inr [4/7, 3/7, 0, 0]
   \<and> cumsum [4/7, 3/7, 0, 0] = [4/7, 1, 1, 1]
   \<and> spec_nucleus_size (3/4) [4/7, 3/7, 0, 0] = 2
   \<and> spec_TopP_step stable_argsort_desc (3/4) [4/7, 3/7, 0, 0] = Inr [4/7, 3/7, 0, 0]
   \<and> spec_TopK_then_TopP stable_argsort_desc 2 (3/4) [2/5, 3/10, 1/5, 1/10]
       = Inr [4/7, 3/7, 0, 0]
   \<and> TopP_probs stable_argsort_desc (3/4) [4/7, 3/7, 0, 0] = Inr [1, 0, 0, 0]
   \<and> TopKTopP_probs stable_argsort_desc 2 (3/4) [2/5, 3/10, 1/5, 1/10] = Inr [1, 0, 0, 0]
   \<and> support [4/7, 3/7, 0, 0] = {0, 1}
   \<and> support [1, 0, 0, 0] = {0}"
proof -
  have k: "TopK_probs stable_argsort_desc 2 [2/5, 3/10, 1/5, 1/10] = Inr [4/7, 3/7, 0, 0]"
    by (simp add: TopK_probs_def TopK_truncate_def stable_argsort_desc_def slice_from_def
        zero_at_def renormalize_def)
  have sk: "spec_TopK_step stable_argsort_desc 2 [2/5, 3/10, 1/5, 1/10] = Inr [4/7, 3/7, 0, 0]"
    by (simp add: spec_TopK_step_def stable_argsort_desc_def zero_at_def renormalize_def)
  have c: "cumsum [4/7, 3/7, 0, 0] = [4/7, 1, 1, 1]"
    by (simp add: cumsum_def)
  have n: "spec_nucleus_size (3/4) [4/7, 3/7, 0, 0] = 2"
    by (simp add: spec_nucleus_size_def cumsum_def)
  have so: "stable_argsort_desc [4/7, 3/7, 0, 0] = [0, 1, 2, 3]"
    by (simp add: stable_argsort_desc_def)
  have sp: "spec_TopP_step stable_argsort_desc (3/4) [4/7, 3/7, 0, 0] = Inr [4/7, 3/7, 0, 0]"
    by (simp add: spec_TopP_step_def so n zero_at_def renormalize_def)
  have st: "spec_TopK_then_TopP stable_argsort_desc 2 (3/4) [2/5, 3/10, 1/5, 1/10]
       = Inr [4/7, 3/7, 0, 0]"
    by (simp add: spec_TopK_then_TopP_def sk sp)
  have p: "TopP_probs stable_argsort_desc (3/4) [4/7, 3/7, 0, 0] = Inr [1, 0, 0, 0]"
    by (simp add: TopP_probs_def TopP_truncate_def TopP_suppressed_def so cumsum_def
        masked_select_def zero_at_def renormalize_def)
  have kp: "TopKTopP_probs stable_argsort_desc 2 (3/4) [2/5, 3/10, 1/5, 1/10] = Inr [1, 0, 0, 0]"
    by (simp add: TopKTopP_probs_composition k p)
  have s2: "support [4/7, 3/7, 0, 0] = {0, 1}"
    by (auto simp: support_def nth_Cons' split: if_splits)
  have s1: "support [1, 0, 0, 0] = {0}"
    by (auto simp: support_def nth_Cons' split: if_splits)
  show ?thesis using k sk c n sp st p kp s2 s1 by simp
qed

subsection \<open>The generation loop\<close>

text \<open>
  C5. When the strategy returns the end-of-sequence index in an iteration, the loop ends
  in that iteration and nothing is appended: the record and the step count are as they
  were when the iteration began, and the model has been invoked once more. In
  particular, when the distribution of the first iteration has all its mass on the
  end-of-sequence index, in a call with a positive step budget and any of the five
  strategies built with \<open>k \<ge> 1\<close> and \<open>p\<close> in \<open>(0, 1]\<close>, the model is invoked exactly once,
  on the clamped encoded prompt, and \<open>generate\<close> returns the decoding of the encoded
  prompt.
\<close>

theorem eos_stops_without_append:
  "(step_count s < max_steps
      \<and> model g (clamp_view g (input_x s)) (model_state s) = (Inr logits, m1)
      \<and> decoding_strategy g (softmax g logits temperature) (rng s) = Inr (eos_idx g, r1)
    \<longrightarrow> (\<exists>s'. generate_loop g max_steps temperature s = Inr s'
            \<and> running_out s' = running_out s
            \<and> step_count s' = step_count s
            \<and> map model_input (steps s') = map model_input (steps s) @ [clamp_view g (input_x s)]
            \<and> model_state s' = m1
            \<and> rng s' = r1))
   \<and> (0 < max_steps
      \<and> model g (clamp_view g (tokenizer_encode g prompt)) m0 = (Inr logits0, m2)
      \<and> softmax g logits0 temperature = one_hot n (eos_idx g)
      \<and> eos_idx g < n
      \<and> decoding_strategy g = sample srt draw strat
      \<and> is_argsort_desc (one_hot n (eos_idx g)) (srt (one_hot n (eos_idx g)))
      \<and> draw_in_support draw
      \<and> valid_config strat
    \<longrightarrow> generate g prompt max_steps temperature m0 r0
           = Inr (tokenizer_decode g (tokenizer_encode g prompt))
        \<and> map model_input (steps (final_state (generate_run g prompt max_steps temperature m0 r0)))
           = [clamp_view g (tokenizer_encode g prompt)]
        \<and> model_state (final_state (generate_run g prompt max_steps temperature m0 r0)) = m2)"
proof (intro conjI impI)
  assume a: "step_count s < max_steps
      \<and> model g (clamp_view g (input_x s)) (model_state s) = (Inr logits, m1)
      \<and> decoding_strategy g (softmax g logits temperature) (rng s) = Inr (eos_idx g, r1)"
  then show "\<exists>s'. generate_loop g max_steps temperature s = Inr s'
            \<and> running_out s' = running_out s
            \<and> step_count s' = step_count s
            \<and> map model_input (steps s') = map model_input (steps s) @ [clamp_view g (input_x s)]
            \<and> model_state s' = m1
            \<and> rng s' = r1"
    using loop_stops_at_eos[of s max_steps g logits m1 temperature r1] by blast
next
  assume a: "0 < max_steps
      \<and> model g (clamp_view g (tokenizer_encode g prompt)) m0 = (Inr logits0, m2)
      \<and> softmax g logits0 temperature = one_hot n (eos_idx g)
      \<and> eos_idx g < n
      \<and> decoding_strategy g = sample srt draw strat
      \<and> is_argsort_desc (one_hot n (eos_idx g)) (srt (one_hot n (eos_idx g)))
      \<and> draw_in_support draw
      \<and> valid_config strat"
  then obtain r1 where "sample srt draw strat (one_hot n (eos_idx g)) r0 = Inr (eos_idx g, r1)"
    using sample_one_hot[of "eos_idx g" n srt draw strat r0] by blast
  then have d: "decoding_strategy g (softmax g logits0 temperature) r0 = Inr (eos_idx g, r1)"
    using a by simp
  have m: "model g (clamp_view g (tokenizer_encode g prompt)) m0 = (Inr logits0, m2)"
    and p: "0 < max_steps" using a by simp_all
  show "generate g prompt max_steps temperature m0 r0
           = Inr (tokenizer_decode g (tokenizer_encode g prompt))"
    using generate_first_eos[OF p m d] by simp
  show "map model_input (steps (final_state (generate_run g prompt max_steps temperature m0 r0)))
           = [clamp_view g (tokenizer_encode g prompt)]"
    using generate_first_eos[OF p m d] by simp
  show "model_state (final_state (generate_run g prompt max_steps temperature m0 r0)) = m2"
    using generate_first_eos[OF p m d] by simp
qed

text \<open>The strategy of the last cell of the notebook, on a distribution with all its mass
  on index 0, the end-of-sequence index of this generator. The model has recorded one
  invocation, on the prompt.\<close>

theorem eos_stops_without_append_witness:
  "(0::int) < 100
   \<and> softmax (stub_generator 0 1024 (TopKTopPDecoding 1000 (3/4)) (one_hot 2 0)) () 1
       = one_hot 2 (eos_idx (stub_generator 0 1024 (TopKTopPDecoding 1000 (3/4)) (one_hot 2 0)))
   \<and> is_argsort_desc (one_hot 2 0) (stable_argsort_desc (one_hot 2 0))
   \<and> draw_in_support draw_first
   \<and> valid_config (TopKTopPDecoding 1000 (3/4))
   \<and> generate (stub_generator 0 1024 (TopKTopPDecoding 1000 (3/4)) (one_hot 2 0)) ''hi'' 100 1 [] 7
       = Inr (map char_of [104, 105 :: nat])
   \<and> map model_input (steps (final_state
         (generate_run (stub_generator 0 1024 (TopKTopPDecoding 1000 (3/4)) (one_hot 2 0))
            ''hi'' 100 1 [] 7)))
       = [[104, 105]]
   \<and> model_state (final_state
         (generate_run (stub_generator 0 1024 (TopKTopPDecoding 1000 (3/4)) (one_hot 2 0))
            ''hi'' 100 1 [] 7))
       = [[104, 105]]"
proof -
  let ?g = "stub_generator 0 1024 (TopKTopPDecoding 1000 (3/4)) (one_hot 2 0)"
  have p: "(0::int) < 100" by simp
  have e: "eos_idx ?g = 0" by (simp add: stub_generator_def)
  have x: "tokenizer_encode ?g ''hi'' = [104, 105]" by code_simp
  have c: "clamp_view ?g [104, 105] = [104, 105]" by (simp add: clamp_view_def stub_generator_def)
  have m: "model ?g (clamp_view ?g (tokenizer_encode ?g ''hi'')) [] = (Inr (), [[104, 105]])"
    unfolding x c by (simp add: stub_generator_def)
  have s: "softmax ?g () 1 = one_hot 2 (eos_idx ?g)" by (simp add: stub_generator_def)
  have d: "decoding_strategy ?g = sample stable_argsort_desc draw_first (TopKTopPDecoding 1000 (3/4))"
    by (simp add: stub_generator_def)
  have a: "is_argsort_desc (one_hot 2 0) (stable_argsort_desc (one_hot 2 0))"
    by (rule argsort_stable)
  have v: "valid_config (TopKTopPDecoding 1000 (3/4))" by (simp add: valid_config_def)
  have y: "tokenizer_decode ?g [104, 105] = map char_of [104, 105 :: nat]"
    by (simp add: stub_generator_def)
  have "generate ?g ''hi'' 100 1 [] 7 = Inr (tokenizer_decode ?g (tokenizer_encode ?g ''hi''))
        \<and> map model_input (steps (final_state (generate_run ?g ''hi'' 100 1 [] 7)))
           = [clamp_view ?g (tokenizer_encode ?g ''hi'')]
        \<and> model_state (final_state (generate_run ?g ''hi'' 100 1 [] 7)) = [[104, 105]]"
    using eos_stops_without_append[of _ 100 ?g _ _ 1 _ "''hi''" "[]" "()" "[[104, 105]]" 2
        stable_argsort_desc draw_first "TopKTopPDecoding 1000 (3/4)" 7]
      m s d a v draw_first_in_support p e
    by simp
  then have "generate ?g ''hi'' 100 1 [] 7 = Inr (map char_of [104, 105 :: nat])
        \<and> map model_input (steps (final_state (generate_run ?g ''hi'' 100 1 [] 7))) = [[104, 105]]
        \<and> model_state (final_state (generate_run ?g ''hi'' 100 1 [] 7)) = [[104, 105]]"
    unfolding x c y .
  then show ?thesis using s a v draw_first_in_support p by blast
qed

text \<open>
  C6. When every model output makes the strategy return a token other than the
  end-of-sequence index, a call with \<open>max_steps = n\<close>, \<open>n \<ge> 0\<close>, returns and decodes a
  record that is the encoded prompt followed by \<open>n\<close> tokens, and it invokes the model
  exactly \<open>n\<close> times: the model goes through \<open>n + 1\<close> states, the first is the one the
  call found it in, the last is the one the call leaves it in, and step \<open>i\<close> takes it
  from state \<open>i\<close> to state \<open>i + 1\<close> by an invocation on the clamped view of the prompt and
  the first \<open>i\<close> tokens, on whose logits the strategy returns token \<open>i\<close>. With
  \<open>max_steps = 0\<close> every call returns the decoded encoded prompt, invokes nothing and
  leaves the model as it was.
\<close>

theorem step_budget_exact:
  "((\<forall>xs m r. \<exists>logits m1 token_idx r1. model g xs m = (Inr logits, m1)
         \<and> decoding_strategy g (softmax g logits temperature) r = Inr (token_idx, r1)
         \<and> token_idx \<noteq> eos_idx g)
      \<and> 0 \<le> n
    \<longrightarrow> (\<exists>s'. generate_run g prompt n temperature m0 r0 = Inr s'
            \<and> length (steps s') = nat n
            \<and> length (concat (running_out s')) = length (tokenizer_encode g prompt) + nat n
            \<and> take (length (tokenizer_encode g prompt)) (concat (running_out s'))
                = tokenizer_encode g prompt
            \<and> generate g prompt n temperature m0 r0
                = Inr (tokenizer_decode g (concat (running_out s')))
            \<and> length (model_states s') = Suc (nat n)
            \<and> model_states s' ! 0 = m0
            \<and> model_states s' ! nat n = model_state s'
            \<and> rng_states s' ! 0 = r0
            \<and> rng_states s' ! nat n = rng s'
            \<and> (\<forall>i < nat n. \<exists>logits.
                  model g
                    (clamp_view g
                       (take (length (tokenizer_encode g prompt) + i) (concat (running_out s'))))
                    (model_states s' ! i)
                    = (Inr logits, model_states s' ! Suc i)
                \<and> decoding_strategy g (softmax g logits temperature) (rng_states s' ! i)
                    = Inr (concat (running_out s') ! (length (tokenizer_encode g prompt) + i),
                           rng_states s' ! Suc i))))
   \<and> generate g prompt 0 temperature m0 r0 = Inr (tokenizer_decode g (tokenizer_encode g prompt))
   \<and> steps (final_state (generate_run g prompt 0 temperature m0 r0)) = []
   \<and> model_state (final_state (generate_run g prompt 0 temperature m0 r0)) = m0"
proof (intro conjI impI)
  assume a: "(\<forall>xs m r. \<exists>logits m1 token_idx r1. model g xs m = (Inr logits, m1)
         \<and> decoding_strategy g (softmax g logits temperature) r = Inr (token_idx, r1)
         \<and> token_idx \<noteq> eos_idx g) \<and> 0 \<le> n"
  then have never: "\<forall>xs m r. \<exists>logits m1 token_idx r1. model g xs m = (Inr logits, m1)
         \<and> decoding_strategy g (softmax g logits temperature) r = Inr (token_idx, r1)
         \<and> token_idx \<noteq> eos_idx g" and n: "0 \<le> n" by simp_all
  define x0 where "x0 = tokenizer_encode g prompt"
  define s where "s = initial_state g prompt m0 r0"
  have f: "step_count s = 0" "steps s = []" "concat (running_out s) = x0"
    by (simp_all add: s_def x0_def initial_state_def Let_def)
  obtain s' where r: "generate_loop g n temperature s = Inr s'"
    and l': "length (steps s') = length (steps s) + nat (n - step_count s)"
    and c': "length (concat (running_out s')) = length (concat (running_out s)) + nat (n - step_count s)"
    using generate_loop_never_eos[OF never, of n s] by blast
  have l: "length (steps s') = nat n" using l' by (simp add: f)
  have c: "length (concat (running_out s')) = length x0 + nat n" using c' by (simp add: f)
  have run: "generate_run g prompt n temperature m0 r0 = Inr s'"
    by (simp add: generate_run_def s_def[symmetric] r)
  have ok: "run_ok g temperature x0 m0 r0 (Inr s')"
    using generate_run_ok[of g temperature prompt m0 r0 n] by (simp add: run x0_def)
  have lo: "log_ok g x0 s'" and ch: "chain_ok g temperature x0 m0 r0 s'"
    and en: "ended_ok g temperature x0 (Inr s')"
    using ok by (simp_all add: run_ok_def final_state_def)
  have pre: "take (length x0) (concat (running_out s')) = x0"
    using lo by (simp add: log_ok_def)
  have cont: "step_continued g temperature x0 s' i" if "i < nat n" for i
    using en that l c by (auto simp: ended_ok_def)
  have inp: "model_input (steps s' ! i) = clamp_view g (take (length x0 + i) (concat (running_out s')))"
    if "i < nat n" for i
    using lo that l by (simp add: log_ok_def)
  have each: "\<exists>logits.
        model g (clamp_view g (take (length x0 + i) (concat (running_out s')))) (model_states s' ! i)
          = (Inr logits, model_states s' ! Suc i)
      \<and> decoding_strategy g (softmax g logits temperature) (rng_states s' ! i)
          = Inr (concat (running_out s') ! (length x0 + i), rng_states s' ! Suc i)"
    if "i < nat n" for i
    using cont[OF that] unfolding step_continued_def inp[OF that] by blast
  have first: "model_states s' ! 0 = m0" "rng_states s' ! 0 = r0"
    using ch by (simp_all add: chain_ok_def)
  have lastm: "model_states s' ! nat n = model_state s'" "rng_states s' ! nat n = rng s'"
    using model_states_last[of s'] rng_states_last[of s'] by (simp_all add: l)
  have lm: "length (model_states s') = Suc (nat n)" by (simp add: length_model_states l)
  have gen: "generate g prompt n temperature m0 r0 = Inr (tokenizer_decode g (concat (running_out s')))"
    by (simp add: generate_def run)
  show "\<exists>s'. generate_run g prompt n temperature m0 r0 = Inr s'
            \<and> length (steps s') = nat n
            \<and> length (concat (running_out s')) = length (tokenizer_encode g prompt) + nat n
            \<and> take (length (tokenizer_encode g prompt)) (concat (running_out s'))
                = tokenizer_encode g prompt
            \<and> generate g prompt n temperature m0 r0
                = Inr (tokenizer_decode g (concat (running_out s')))
            \<and> length (model_states s') = Suc (nat n)
            \<and> model_states s' ! 0 = m0
            \<and> model_states s' ! nat n = model_state s'
            \<and> rng_states s' ! 0 = r0
            \<and> rng_states s' ! nat n = rng s'
            \<and> (\<forall>i < nat n. \<exists>logits.
                  model g
                    (clamp_view g
                       (take (length (tokenizer_encode g prompt) + i) (concat (running_out s'))))
                    (model_states s' ! i)
                    = (Inr logits, model_states s' ! Suc i)
                \<and> decoding_strategy g (softmax g logits temperature) (rng_states s' ! i)
                    = Inr (concat (running_out s') ! (length (tokenizer_encode g prompt) + i),
                           rng_states s' ! Suc i))"
    using run l c pre gen lm first lastm each unfolding x0_def by blast
next
  show "generate g prompt 0 temperature m0 r0 = Inr (tokenizer_decode g (tokenizer_encode g prompt))"
    by (simp add: generate_def generate_run_def initial_state_def Let_def generate_loop.simps)
  show "steps (final_state (generate_run g prompt 0 temperature m0 r0)) = []"
    by (simp add: generate_run_def initial_state_def Let_def generate_loop.simps final_state_def)
  show "model_state (final_state (generate_run g prompt 0 temperature m0 r0)) = m0"
    by (simp add: generate_run_def initial_state_def Let_def generate_loop.simps final_state_def)
qed

text \<open>Greedy decoding on the uniform distribution returns index 0; the end-of-sequence
  index of this generator is 1. With a budget of five steps the model has recorded five
  invocations: on the prompt, then on the prompt with one more token each time.\<close>

theorem step_budget_exact_witness:
  "(0::int) \<le> 5
   \<and> (\<exists>s'. generate_run (stub_generator 1 1024 GreedyDecoding [1/2, 1/2]) ''hi'' 5 1 [] (0::nat)
            = Inr s'
         \<and> length (steps s') = 5
         \<and> length (concat (running_out s')) = 2 + 5
         \<and> length (model_states s') = 6)
   \<and> generate (stub_generator 1 1024 GreedyDecoding [1/2, 1/2]) ''hi'' 5 1 [] (0::nat)
       = Inr (map char_of [104, 105, 0, 0, 0, 0, 0 :: nat])
   \<and> model_state (final_state
        (generate_run (stub_generator 1 1024 GreedyDecoding [1/2, 1/2]) ''hi'' 5 1 [] (0::nat)))
       = [[104, 105], [104, 105, 0], [104, 105, 0, 0], [104, 105, 0, 0, 0],
          [104, 105, 0, 0, 0, 0]]"
proof -
  let ?g = "stub_generator 1 1024 GreedyDecoding [1/2, 1/2]"
  have h: "\<forall>xs m r. \<exists>logits m1 token_idx r1. model ?g xs m = (Inr logits, m1)
         \<and> decoding_strategy ?g (softmax ?g logits 1) r = Inr (token_idx, r1)
         \<and> token_idx \<noteq> eos_idx ?g"
    by (simp add: stub_generator_def argmax_def)
  have n: "(0::int) \<le> 5" by simp
  have "\<exists>s'. generate_run ?g ''hi'' 5 1 [] (0::nat) = Inr s'
            \<and> length (steps s') = nat 5
            \<and> length (concat (running_out s')) = length (tokenizer_encode ?g ''hi'') + nat 5
            \<and> length (model_states s') = Suc (nat 5)"
    using step_budget_exact[of ?g 1 5 "''hi''" "[]" "0::nat"] h n by blast
  moreover have "length (tokenizer_encode ?g ''hi'') = 2" by (simp add: stub_generator_def)
  ultimately have a: "\<exists>s'. generate_run ?g ''hi'' 5 1 [] (0::nat) = Inr s'
         \<and> length (steps s') = 5
         \<and> length (concat (running_out s')) = 2 + 5
         \<and> length (model_states s') = 6"
    by simp
  have b: "generate ?g ''hi'' 5 1 [] (0::nat) = Inr (map char_of [104, 105, 0, 0, 0, 0, 0 :: nat])"
    by code_simp
  have c: "model_state (final_state (generate_run ?g ''hi'' 5 1 [] (0::nat)))
       = [[104, 105], [104, 105, 0], [104, 105, 0, 0], [104, 105, 0, 0, 0],
          [104, 105, 0, 0, 0, 0]]"
    by code_simp
  show ?thesis using a b c n by blast
qed

text \<open>
  C7. In every call of \<open>generate\<close>, returned or raised, \<open>warnings.warn\<close> is called in an
  iteration exactly when the full record of that iteration is longer than
  \<open>max_input_length\<close> and that of no earlier iteration of the call was; so it is called at
  most once in the call. The flag is cleared when a call starts.
\<close>

theorem warning_at_most_once:
  "(\<forall>i < length (steps (final_state (generate_run g prompt max_steps temperature m0 r0))).
      warned (steps (final_state (generate_run g prompt max_steps temperature m0 r0)) ! i) \<longleftrightarrow>
        max_input_length g
          < length (full_record (steps (final_state (generate_run g prompt max_steps temperature m0 r0)) ! i))
        \<and> (\<forall>j < i.
              length (full_record (steps (final_state (generate_run g prompt max_steps temperature m0 r0)) ! j))
                \<le> max_input_length g))
   \<and> length (filter warned (steps (final_state (generate_run g prompt max_steps temperature m0 r0)))) \<le> 1
   \<and> \<not> max_length_warning_triggered (initial_state g prompt m0 r0)"
proof -
  define log where "log = steps (final_state (generate_run g prompt max_steps temperature m0 r0))"
  define x0 where "x0 = tokenizer_encode g prompt"
  have ok: "log_ok g x0 (final_state (generate_run g prompt max_steps temperature m0 r0))"
    unfolding x0_def by (rule generate_run_log_ok)
  have len: "length (full_record (log ! i)) = length x0 + i" if "i < length log" for i
    using ok that by (simp add: log_ok_def log_def)
  have w: "warned (log ! i) \<longleftrightarrow>
             max_input_length g < length x0 + i \<and> (\<forall>j < i. length x0 + j \<le> max_input_length g)"
    if "i < length log" for i
    using ok that by (simp add: log_ok_def log_def)
  have first: "warned (log ! i) \<longleftrightarrow>
        max_input_length g < length (full_record (log ! i))
        \<and> (\<forall>j < i. length (full_record (log ! j)) \<le> max_input_length g)"
    if "i < length log" for i
  proof -
    have "(\<forall>j < i. length (full_record (log ! j)) \<le> max_input_length g)
          \<longleftrightarrow> (\<forall>j < i. length x0 + j \<le> max_input_length g)"
      using that len by auto
    then show ?thesis using w[OF that] len[OF that] by simp
  qed
  have uniq: "i = j" if "i < length log" "j < length log" "warned (log ! i)" "warned (log ! j)" for i j
  proof (rule ccontr)
    assume "i \<noteq> j"
    then consider "i < j" | "j < i" by linarith
    then show False
    proof cases
      case 1
      then show ?thesis using w[OF that(1)] w[OF that(2)] that(3,4) by auto
    next
      case 2
      then show ?thesis using w[OF that(1)] w[OF that(2)] that(3,4) by auto
    qed
  qed
  have once: "length (filter warned log) \<le> 1"
    by (rule filter_at_most_one) (use uniq in blast)
  have fresh: "\<not> max_length_warning_triggered (initial_state g prompt m0 r0)"
    by (simp add: initial_state_def Let_def)
  show ?thesis
    using first once fresh unfolding log_def by blast
qed

text \<open>A prompt of two tokens, a window of three and four steps: the record is too long
  in the third and in the fourth iteration, and the warning goes out in the third.\<close>

theorem warning_at_most_once_witness:
  "map warned (steps (final_state
       (generate_run (stub_generator 2 3 RandomDecoding [1/2, 1/2]) ''hi'' 4 1 [] (0::nat))))
     = [False, False, True, False]
   \<and> map (\<lambda>e. length (full_record e)) (steps (final_state
       (generate_run (stub_generator 2 3 RandomDecoding [1/2, 1/2]) ''hi'' 4 1 [] (0::nat))))
     = [2, 3, 4, 5]
   \<and> length (filter warned (steps (final_state
       (generate_run (stub_generator 2 3 RandomDecoding [1/2, 1/2]) ''hi'' 4 1 [] (0::nat))))) \<le> 1"
proof -
  have a: "map warned (steps (final_state
       (generate_run (stub_generator 2 3 RandomDecoding [1/2, 1/2]) ''hi'' 4 1 [] (0::nat))))
     = [False, False, True, False]"
    by code_simp
  have b: "map (\<lambda>e. length (full_record e)) (steps (final_state
       (generate_run (stub_generator 2 3 RandomDecoding [1/2, 1/2]) ''hi'' 4 1 [] (0::nat))))
     = [2, 3, 4, 5]"
    by code_simp
  show ?thesis
    using warning_at_most_once[of "stub_generator 2 3 RandomDecoding [1/2, 1/2]" "''hi''" 4 1 "[]" "0::nat"] a b
    by blast
qed

text \<open>
  C8. In every call of \<open>generate\<close>, returned or raised, the full record only grows: the
  record that iteration \<open>i\<close> saw is the encoded prompt followed by \<open>i\<close> tokens, and it is
  still the front of the record in which the call ends. Iteration \<open>i\<close> invokes the model
  once, on the full record when it fits and on its last \<open>max_input_length\<close> tokens when it
  does not: that invocation takes the model from its state \<open>i\<close> to its state \<open>i + 1\<close>, the
  first state is the one the call found and the last the one it leaves, and in every
  iteration but the last the strategy turns the logits of that invocation into the token
  appended to the record. What \<open>generate\<close> returns is the decoding of the whole record.
\<close>

theorem clamp_is_a_view:
  "take (length (tokenizer_encode g prompt)) (concat (running_out (final_state (generate_run g prompt max_steps temperature m0 r0)))) = (tokenizer_encode g prompt)
   \<and> (\<forall>i < length (steps (final_state (generate_run g prompt max_steps temperature m0 r0))).
        full_record (steps (final_state (generate_run g prompt max_steps temperature m0 r0)) ! i) = take (length (tokenizer_encode g prompt) + i) (concat (running_out (final_state (generate_run g prompt max_steps temperature m0 r0))))
      \<and> length (full_record (steps (final_state (generate_run g prompt max_steps temperature m0 r0)) ! i)) = length (tokenizer_encode g prompt) + i
      \<and> model_input (steps (final_state (generate_run g prompt max_steps temperature m0 r0)) ! i)
          = (if max_input_length g < length (full_record (steps (final_state (generate_run g prompt max_steps temperature m0 r0)) ! i))
             then drop (length (full_record (steps (final_state (generate_run g prompt max_steps temperature m0 r0)) ! i)) - max_input_length g)
                    (full_record (steps (final_state (generate_run g prompt max_steps temperature m0 r0)) ! i))
             else full_record (steps (final_state (generate_run g prompt max_steps temperature m0 r0)) ! i))
      \<and> (max_input_length g < length (full_record (steps (final_state (generate_run g prompt max_steps temperature m0 r0)) ! i))
          \<longrightarrow> length (model_input (steps (final_state (generate_run g prompt max_steps temperature m0 r0)) ! i)) = max_input_length g)
      \<and> snd (model g (model_input (steps (final_state (generate_run g prompt max_steps temperature m0 r0)) ! i)) (model_states (final_state (generate_run g prompt max_steps temperature m0 r0)) ! i))
          = model_states (final_state (generate_run g prompt max_steps temperature m0 r0)) ! Suc i)
   \<and> (\<forall>i. Suc i < length (steps (final_state (generate_run g prompt max_steps temperature m0 r0)))
        \<longrightarrow> (\<exists>logits.
              model g (model_input (steps (final_state (generate_run g prompt max_steps temperature m0 r0)) ! i)) (model_states (final_state (generate_run g prompt max_steps temperature m0 r0)) ! i)
                = (Inr logits, model_states (final_state (generate_run g prompt max_steps temperature m0 r0)) ! Suc i)
            \<and> decoding_strategy g (softmax g logits temperature) (rng_states (final_state (generate_run g prompt max_steps temperature m0 r0)) ! i)
                = Inr ((concat (running_out (final_state (generate_run g prompt max_steps temperature m0 r0)))) ! (length (tokenizer_encode g prompt) + i), rng_states (final_state (generate_run g prompt max_steps temperature m0 r0)) ! Suc i)))
   \<and> length (model_states (final_state (generate_run g prompt max_steps temperature m0 r0))) = Suc (length (steps (final_state (generate_run g prompt max_steps temperature m0 r0))))
   \<and> model_states (final_state (generate_run g prompt max_steps temperature m0 r0)) ! 0 = m0
   \<and> model_states (final_state (generate_run g prompt max_steps temperature m0 r0)) ! length (steps (final_state (generate_run g prompt max_steps temperature m0 r0))) = model_state (final_state (generate_run g prompt max_steps temperature m0 r0))
   \<and> (\<forall>s'. generate_run g prompt max_steps temperature m0 r0 = Inr s'
        \<longrightarrow> generate g prompt max_steps temperature m0 r0
              = Inr (tokenizer_decode g (concat (running_out s'))))"
proof -
  define fin where "fin = final_state (generate_run g prompt max_steps temperature m0 r0)"
  define x0 where "x0 = tokenizer_encode g prompt"
  have rok: "run_ok g temperature x0 m0 r0 (generate_run g prompt max_steps temperature m0 r0)"
    unfolding x0_def by (rule generate_run_ok)
  have ok: "log_ok g x0 fin" and ch: "chain_ok g temperature x0 m0 r0 fin"
    using rok by (simp_all add: run_ok_def fin_def)
  have pre: "take (length x0) (concat (running_out fin)) = x0"
    using ok by (simp add: log_ok_def)
  have each: "full_record (steps fin ! i) = take (length x0 + i) (concat (running_out fin))
      \<and> length (full_record (steps fin ! i)) = length x0 + i
      \<and> model_input (steps fin ! i)
          = (if max_input_length g < length (full_record (steps fin ! i))
             then drop (length (full_record (steps fin ! i)) - max_input_length g)
                    (full_record (steps fin ! i))
             else full_record (steps fin ! i))
      \<and> (max_input_length g < length (full_record (steps fin ! i))
          \<longrightarrow> length (model_input (steps fin ! i)) = max_input_length g)
      \<and> snd (model g (model_input (steps fin ! i)) (model_states fin ! i))
          = model_states fin ! Suc i"
    if "i < length (steps fin)" for i
  proof -
    have 1: "full_record (steps fin ! i) = take (length x0 + i) (concat (running_out fin))"
      and 2: "length x0 + i \<le> length (concat (running_out fin))"
      and 3: "model_input (steps fin ! i) = clamp_view g (full_record (steps fin ! i))"
      using ok that by (simp_all add: log_ok_def)
    have 4: "length (full_record (steps fin ! i)) = length x0 + i" using 1 2 by simp
    have 5: "model_input (steps fin ! i)
          = (if max_input_length g < length (full_record (steps fin ! i))
             then drop (length (full_record (steps fin ! i)) - max_input_length g)
                    (full_record (steps fin ! i))
             else full_record (steps fin ! i))"
      unfolding 3 clamp_view_def by (rule refl)
    have 6: "length (model_input (steps fin ! i)) = max_input_length g"
      if "max_input_length g < length (full_record (steps fin ! i))"
      using that unfolding 5 by simp
    have 7: "snd (model g (model_input (steps fin ! i)) (model_states fin ! i))
          = model_states fin ! Suc i"
      using ch that by (simp add: chain_ok_def)
    show ?thesis using 1 4 5 6 7 by blast
  qed
  have mid: "\<exists>logits.
        model g (model_input (steps fin ! i)) (model_states fin ! i)
          = (Inr logits, model_states fin ! Suc i)
      \<and> decoding_strategy g (softmax g logits temperature) (rng_states fin ! i)
          = Inr (concat (running_out fin) ! (length x0 + i), rng_states fin ! Suc i)"
    if "Suc i < length (steps fin)" for i
  proof -
    have "step_continued g temperature x0 fin i" using ch that by (simp add: chain_ok_def)
    then show ?thesis unfolding step_continued_def by blast
  qed
  have lm: "length (model_states fin) = Suc (length (steps fin))" by (rule length_model_states)
  have first: "model_states fin ! 0 = m0" using ch by (simp add: chain_ok_def)
  have lst: "model_states fin ! length (steps fin) = model_state fin" by (rule model_states_last)
  have dec: "generate g prompt max_steps temperature m0 r0
              = Inr (tokenizer_decode g (concat (running_out s')))"
    if "generate_run g prompt max_steps temperature m0 r0 = Inr s'" for s'
    using that by (simp add: generate_def)
  show ?thesis
    using pre each mid lm first lst dec unfolding fin_def x0_def by blast
qed

text \<open>A prompt of two tokens, a window of three and four steps. The model of this
  generator appends every input it is invoked on to its state: it was invoked four
  times, in the third and in the fourth iteration on the last three tokens of the
  record, and the call returns the decoding of all six tokens.\<close>

theorem clamp_is_a_view_witness:
  "model_state (final_state
       (generate_run (stub_generator 2 3 RandomDecoding [1/2, 1/2]) ''hi'' 4 1 [] (0::nat)))
     = [[104, 105], [104, 105, 0], [105, 0, 0], [0, 0, 0]]
   \<and> map model_input (steps (final_state
       (generate_run (stub_generator 2 3 RandomDecoding [1/2, 1/2]) ''hi'' 4 1 [] (0::nat))))
     = [[104, 105], [104, 105, 0], [105, 0, 0], [0, 0, 0]]
   \<and> concat (running_out (final_state
       (generate_run (stub_generator 2 3 RandomDecoding [1/2, 1/2]) ''hi'' 4 1 [] (0::nat))))
     = [104, 105, 0, 0, 0, 0]
   \<and> generate (stub_generator 2 3 RandomDecoding [1/2, 1/2]) ''hi'' 4 1 [] (0::nat)
     = Inr (map char_of [104, 105, 0, 0, 0, 0 :: nat])
   \<and> take (length (tokenizer_encode (stub_generator 2 3 RandomDecoding [1/2, 1/2]) ''hi''))
        (concat (running_out (final_state
          (generate_run (stub_generator 2 3 RandomDecoding [1/2, 1/2]) ''hi'' 4 1 [] (0::nat)))))
     = tokenizer_encode (stub_generator 2 3 RandomDecoding [1/2, 1/2]) ''hi''
   \<and> model_states (final_state
       (generate_run (stub_generator 2 3 RandomDecoding [1/2, 1/2]) ''hi'' 4 1 [] (0::nat))) ! 0
     = []"
proof -
  have m: "model_state (final_state
       (generate_run (stub_generator 2 3 RandomDecoding [1/2, 1/2]) ''hi'' 4 1 [] (0::nat)))
     = [[104, 105], [104, 105, 0], [105, 0, 0], [0, 0, 0]]"
    by code_simp
  have a: "map model_input (steps (final_state
       (generate_run (stub_generator 2 3 RandomDecoding [1/2, 1/2]) ''hi'' 4 1 [] (0::nat))))
     = [[104, 105], [104, 105, 0], [105, 0, 0], [0, 0, 0]]"
    by code_simp
  have b: "concat (running_out (final_state
       (generate_run (stub_generator 2 3 RandomDecoding [1/2, 1/2]) ''hi'' 4 1 [] (0::nat))))
     = [104, 105, 0, 0, 0, 0]"
    by code_simp
  have c: "generate (stub_generator 2 3 RandomDecoding [1/2, 1/2]) ''hi'' 4 1 [] (0::nat)
     = Inr (map char_of [104, 105, 0, 0, 0, 0 :: nat])"
    by code_simp
  show ?thesis
    using clamp_is_a_view[of "stub_generator 2 3 RandomDecoding [1/2, 1/2]" "''hi''" 4 1 "[]" "0::nat"]
      m a b c
    by blast
qed

text \<open>
  C2. Nothing is validated. The constructors store \<open>k\<close> and \<open>p\<close> as they are given, and
  \<open>generate\<close> tests \<open>max_steps\<close> only in the loop condition and passes \<open>temperature\<close> on to
  the division. Whatever the temperature and the strategy:
  a call with \<open>max_steps \<le> 0\<close>, negative values included, returns the decoding of the
  encoded prompt, invokes nothing and leaves the model as it was;
  a call with \<open>0 < max_steps\<close> reaches the first iteration and invokes the model there, on
  the clamped view of the encoded prompt;
  an error that \<open>generate\<close> raises is the error that the model or the strategy raised in
  the last iteration.
  Of the strategies, on a distribution over \<open>V\<close> tokens: top-p returns a token for every
  \<open>p\<close>, also outside \<open>(0, 1]\<close>; top-k and top-k-top-p return a token for every \<open>k\<close> except
  \<open>k = 0\<close> and \<open>k \<le> -V\<close>, negative \<open>k\<close> included, and for these they raise the RuntimeError
  of \<open>multinomial\<close>, from inside the sampling step.
\<close>

theorem no_validation_before_the_loop:
  "(max_steps \<le> 0
    \<longrightarrow> generate g prompt max_steps temperature m0 r0
           = Inr (tokenizer_decode g (tokenizer_encode g prompt))
        \<and> steps (final_state (generate_run g prompt max_steps temperature m0 r0)) = []
        \<and> model_state (final_state (generate_run g prompt max_steps temperature m0 r0)) = m0)
   \<and> (0 < max_steps
    \<longrightarrow> steps (final_state (generate_run g prompt max_steps temperature m0 r0)) \<noteq> []
        \<and> model_input (steps (final_state (generate_run g prompt max_steps temperature m0 r0)) ! 0)
            = (if max_input_length g < length (tokenizer_encode g prompt)
               then drop (length (tokenizer_encode g prompt) - max_input_length g) (tokenizer_encode g prompt)
               else (tokenizer_encode g prompt))
        \<and> model_states (final_state (generate_run g prompt max_steps temperature m0 r0)) ! 0 = m0
        \<and> model_states (final_state (generate_run g prompt max_steps temperature m0 r0)) ! 1
            = snd (model g (if max_input_length g < length (tokenizer_encode g prompt)
                            then drop (length (tokenizer_encode g prompt) - max_input_length g) (tokenizer_encode g prompt)
                            else (tokenizer_encode g prompt)) m0))
   \<and> (generate g prompt max_steps temperature m0 r0 = Inl e
    \<longrightarrow> steps (final_state (generate_run g prompt max_steps temperature m0 r0)) \<noteq> []
        \<and> (fst (model g (model_input (last (steps (final_state (generate_run g prompt max_steps temperature m0 r0)))))
                   (model_states (final_state (generate_run g prompt max_steps temperature m0 r0)) ! (length (steps (final_state (generate_run g prompt max_steps temperature m0 r0))) - 1))) = Inl e
            \<or> (\<exists>logits.
                  fst (model g (model_input (last (steps (final_state (generate_run g prompt max_steps temperature m0 r0)))))
                         (model_states (final_state (generate_run g prompt max_steps temperature m0 r0)) ! (length (steps (final_state (generate_run g prompt max_steps temperature m0 r0))) - 1))) = Inr logits
                \<and> decoding_strategy g (softmax g logits temperature)
                      (rng_states (final_state (generate_run g prompt max_steps temperature m0 r0)) ! (length (steps (final_state (generate_run g prompt max_steps temperature m0 r0))) - 1)) = Inl e)))
   \<and> (is_argsort_desc probs (srt probs)
    \<longrightarrow> sample srt draw (TopKDecoding 0) probs r = Inl RuntimeError
        \<and> (probs \<noteq> [] \<longrightarrow> sample srt draw (TopKTopPDecoding 0 p) probs r = Inl RuntimeError))
   \<and> (is_distribution probs \<and> (\<forall>ps. is_argsort_desc ps (srt ps))
    \<longrightarrow> (\<exists>tok r1. sample srt draw (TopPDecoding p) probs r = Inr (tok, r1))
        \<and> (k = 0 \<or> k \<le> - int (length probs)
            \<longrightarrow> sample srt draw (TopKDecoding k) probs r = Inl RuntimeError
                \<and> sample srt draw (TopKTopPDecoding k p) probs r = Inl RuntimeError)
        \<and> (\<not> (k = 0 \<or> k \<le> - int (length probs))
            \<longrightarrow> (\<exists>tok r1. sample srt draw (TopKDecoding k) probs r = Inr (tok, r1))
                \<and> (\<exists>tok r1. sample srt draw (TopKTopPDecoding k p) probs r = Inr (tok, r1))))"
proof -
  define fin where "fin = final_state (generate_run g prompt max_steps temperature m0 r0)"
  define x0 where "x0 = tokenizer_encode g prompt"
  define s0 where "s0 = initial_state g prompt m0 r0"
  have rok: "run_ok g temperature x0 m0 r0 (generate_run g prompt max_steps temperature m0 r0)"
    unfolding x0_def by (rule generate_run_ok)
  have ok: "log_ok g x0 fin" and ch: "chain_ok g temperature x0 m0 r0 fin"
    and en: "ended_ok g temperature x0 (generate_run g prompt max_steps temperature m0 r0)"
    using rok by (simp_all add: run_ok_def fin_def)
  have A: "generate g prompt max_steps temperature m0 r0 = Inr (tokenizer_decode g x0)
        \<and> steps fin = [] \<and> model_state fin = m0"
    if "max_steps \<le> 0"
  proof -
    have r: "generate_run g prompt max_steps temperature m0 r0 = Inr (initial_state g prompt m0 r0)"
      using that by (simp add: generate_run_def generate_loop.simps initial_state_def Let_def)
    have 1: "generate g prompt max_steps temperature m0 r0 = Inr (tokenizer_decode g x0)"
      by (simp add: generate_def r) (simp add: initial_state_def Let_def x0_def)
    have 2: "steps fin = []" "model_state fin = m0"
      by (simp_all add: fin_def r final_state_def) (simp_all add: initial_state_def Let_def)
    show ?thesis using 1 2 by blast
  qed
  have B: "steps fin \<noteq> []
        \<and> model_input (steps fin ! 0)
            = (if max_input_length g < length x0 then drop (length x0 - max_input_length g) x0
               else x0)
        \<and> model_states fin ! 0 = m0
        \<and> model_states fin ! 1
            = snd (model g (if max_input_length g < length x0
                            then drop (length x0 - max_input_length g) x0 else x0) m0)"
    if pos: "0 < max_steps"
  proof -
    have sc: "step_count s0 < max_steps" "steps s0 = []"
      using pos by (simp_all add: s0_def initial_state_def Let_def)
    have "length (steps s0) < length (steps (final_state (generate_loop g max_steps temperature s0)))"
      using generate_loop_steps_grow[of s0 g max_steps temperature] sc(1) by blast
    then have "0 < length (steps (final_state (generate_loop g max_steps temperature s0)))"
      by (simp add: sc(2))
    then have l: "0 < length (steps fin)"
      unfolding fin_def generate_run_def s0_def .
    then have ne: "steps fin \<noteq> []" by auto
    have pre: "take (length x0) (concat (running_out fin)) = x0"
      using ok by (simp add: log_ok_def)
    have fr: "full_record (steps fin ! 0) = take (length x0 + 0) (concat (running_out fin))"
      and mi: "model_input (steps fin ! 0) = clamp_view g (full_record (steps fin ! 0))"
      using ok l by (simp_all add: log_ok_def)
    have fr0: "full_record (steps fin ! 0) = x0" using fr pre by simp
    have inp: "model_input (steps fin ! 0)
            = (if max_input_length g < length x0 then drop (length x0 - max_input_length g) x0
               else x0)"
      unfolding mi fr0 clamp_view_def by (rule refl)
    have first: "model_states fin ! 0 = m0" using ch by (simp add: chain_ok_def)
    have "\<forall>i < length (steps fin).
        snd (model g (model_input (steps fin ! i)) (model_states fin ! i)) = model_states fin ! Suc i"
      using ch unfolding chain_ok_def by blast
    then have "snd (model g (model_input (steps fin ! 0)) (model_states fin ! 0)) = model_states fin ! Suc 0"
      using l by blast
    then have nxt: "model_states fin ! 1
            = snd (model g (if max_input_length g < length x0
                            then drop (length x0 - max_input_length g) x0 else x0) m0)"
      unfolding inp first by simp
    show ?thesis using ne inp first nxt by blast
  qed
  have C: "steps fin \<noteq> []
        \<and> (fst (model g (model_input (last (steps fin)))
                   (model_states fin ! (length (steps fin) - 1))) = Inl e
            \<or> (\<exists>logits.
                  fst (model g (model_input (last (steps fin)))
                         (model_states fin ! (length (steps fin) - 1))) = Inr logits
                \<and> decoding_strategy g (softmax g logits temperature)
                      (rng_states fin ! (length (steps fin) - 1)) = Inl e))"
    if raised: "generate g prompt max_steps temperature m0 r0 = Inl e"
  proof -
    obtain s where r: "generate_run g prompt max_steps temperature m0 r0 = Inl (e, s)"
      using raised by (auto simp: generate_def split: sum.splits)
    have f: "fin = s" by (simp add: fin_def r final_state_def)
    show ?thesis using en unfolding r f by (simp add: ended_ok_def)
  qed
  have D0: "sample srt draw (TopKDecoding 0) probs r = Inl RuntimeError
        \<and> (probs \<noteq> [] \<longrightarrow> sample srt draw (TopKTopPDecoding 0 p) probs r = Inl RuntimeError)"
    if a: "is_argsort_desc probs (srt probs)"
  proof -
    have 1: "sample srt draw (TopKDecoding 0) probs r = Inl RuntimeError"
      using TopK_zero_probs[of probs srt, OF a] by (cases "probs = []") (simp_all add: multinomial_def)
    have 2: "sample srt draw (TopKTopPDecoding 0 p) probs r = Inl RuntimeError" if "probs \<noteq> []"
      using TopK_zero_probs[of probs srt, OF a] that by (simp add: TopKTopP_probs_composition)
    show ?thesis using 1 2 by blast
  qed
  have D: "(\<exists>tok r1. sample srt draw (TopPDecoding p) probs r = Inr (tok, r1))
        \<and> (k = 0 \<or> k \<le> - int (length probs)
            \<longrightarrow> sample srt draw (TopKDecoding k) probs r = Inl RuntimeError
                \<and> sample srt draw (TopKTopPDecoding k p) probs r = Inl RuntimeError)
        \<and> (\<not> (k = 0 \<or> k \<le> - int (length probs))
            \<longrightarrow> (\<exists>tok r1. sample srt draw (TopKDecoding k) probs r = Inr (tok, r1))
                \<and> (\<exists>tok r1. sample srt draw (TopKTopPDecoding k p) probs r = Inr (tok, r1)))"
    if h: "is_distribution probs \<and> (\<forall>ps. is_argsort_desc ps (srt ps))"
  proof -
    have d: "is_distribution probs" and s: "\<forall>ps. is_argsort_desc ps (srt ps)" using h by simp_all
    note f = sample_returns_or_raises[of probs srt, OF d s]
    show ?thesis
      using f(1)[of draw p r] f(2)[of k draw r] f(3)[of k draw p r] f(4)[of k draw r]
        f(5)[of k draw p r]
      by blast
  qed
  show ?thesis
    using A B C D0 D unfolding fin_def x0_def by blast
qed

text \<open>Top-k with \<open>k = 0\<close> and temperature 0. With a step budget of \<open>-1\<close> the call returns
  the decoded prompt and the model is not invoked; with a step budget of 1 the model is
  invoked on the prompt and the RuntimeError comes from the strategy. On
  \<open>[1/2, 3/10, 1/5]\<close> top-p returns a token for \<open>p = 2\<close> and for \<open>p = -1\<close>, top-k raises for
  \<open>k = -3\<close> and returns a token for \<open>k = -1\<close>.\<close>

theorem no_validation_before_the_loop_witness:
  "(-1::int) \<le> 0
   \<and> generate (stub_generator 1 1024 (TopKDecoding 0) [1/2, 1/2]) ''hi'' (-1) 0 [] (0::nat)
       = Inr (map char_of [104, 105 :: nat])
   \<and> model_state (final_state
        (generate_run (stub_generator 1 1024 (TopKDecoding 0) [1/2, 1/2]) ''hi'' (-1) 0 [] (0::nat)))
       = []
   \<and> (0::int) < 1
   \<and> 0 < length (steps (final_state
        (generate_run (stub_generator 1 1024 (TopKDecoding 0) [1/2, 1/2]) ''hi'' 1 0 [] (0::nat))))
   \<and> model_states (final_state
        (generate_run (stub_generator 1 1024 (TopKDecoding 0) [1/2, 1/2]) ''hi'' 1 0 [] (0::nat))) ! 1
       = [[104, 105]]
   \<and> generate (stub_generator 1 1024 (TopKDecoding 0) [1/2, 1/2]) ''hi'' 1 0 [] (0::nat)
       = Inl RuntimeError
   \<and> (\<exists>logits r.
        decoding_strategy (stub_generator 1 1024 (TopKDecoding 0) [1/2, 1/2])
          (softmax (stub_generator 1 1024 (TopKDecoding 0) [1/2, 1/2]) logits 0) r
        = Inl RuntimeError)
   \<and> is_argsort_desc [1/2, 3/10, 1/5] (stable_argsort_desc [1/2, 3/10, 1/5])
   \<and> sample stable_argsort_desc draw_first (TopKDecoding 0) [1/2, 3/10, 1/5] (0::nat)
       = Inl RuntimeError
   \<and> is_distribution [1/2, 3/10, 1/5]
   \<and> (\<exists>tok r1. sample stable_argsort_desc draw_first (TopPDecoding 2) [1/2, 3/10, 1/5] (0::nat)
         = Inr (tok, r1))
   \<and> (\<exists>tok r1. sample stable_argsort_desc draw_first (TopPDecoding (-1)) [1/2, 3/10, 1/5] (0::nat)
         = Inr (tok, r1))
   \<and> (-3::int) \<le> - int (length [1/2, 3/10, 1/5 :: real])
   \<and> sample stable_argsort_desc draw_first (TopKDecoding (-3)) [1/2, 3/10, 1/5] (0::nat)
       = Inl RuntimeError
   \<and> sample stable_argsort_desc draw_first (TopKTopPDecoding (-3) 2) [1/2, 3/10, 1/5] (0::nat)
       = Inl RuntimeError
   \<and> (\<exists>tok r1. sample stable_argsort_desc draw_first (TopKDecoding (-1)) [1/2, 3/10, 1/5] (0::nat)
         = Inr (tok, r1))
   \<and> (\<exists>tok r1. sample stable_argsort_desc draw_first (TopKTopPDecoding (-1) (-1))
                  [1/2, 3/10, 1/5] (0::nat)
         = Inr (tok, r1))"
proof -
  let ?g = "stub_generator 1 1024 (TopKDecoding 0) [1/2, 1/2]"
  let ?P = "[1/2, 3/10, 1/5] :: real list"
  note t1 = no_validation_before_the_loop[where max_steps = "-1" and g = ?g and prompt = "''hi''"
      and temperature = 0 and ?m0.0 = "[]" and ?r0.0 = "0::nat" and e = RuntimeError
      and probs = ?P and srt = stable_argsort_desc and draw = draw_first and r = "0::nat"
      and p = 2 and k = "-3"]
  note t2 = no_validation_before_the_loop[where max_steps = 1 and g = ?g and prompt = "''hi''"
      and temperature = 0 and ?m0.0 = "[]" and ?r0.0 = "0::nat" and e = RuntimeError
      and probs = ?P and srt = stable_argsort_desc and draw = draw_first and r = "0::nat"
      and p = "-1" and k = "-1"]
  have le: "(-1::int) \<le> 0" and pos: "(0::int) < 1" by simp_all
  have x: "tokenizer_decode ?g (tokenizer_encode ?g ''hi'') = map char_of [104, 105 :: nat]"
    by code_simp
  have a: "generate ?g ''hi'' (-1) 0 [] (0::nat) = Inr (map char_of [104, 105 :: nat])
      \<and> model_state (final_state (generate_run ?g ''hi'' (-1) 0 [] (0::nat))) = []"
    using t1 le unfolding x by blast
  have y: "snd (model ?g (if max_input_length ?g < length (tokenizer_encode ?g ''hi'')
                          then drop (length (tokenizer_encode ?g ''hi'') - max_input_length ?g)
                                 (tokenizer_encode ?g ''hi'')
                          else tokenizer_encode ?g ''hi'') []) = [[104, 105]]"
    by code_simp
  have b0: "steps (final_state (generate_run ?g ''hi'' 1 0 [] (0::nat))) \<noteq> []
      \<and> model_states (final_state (generate_run ?g ''hi'' 1 0 [] (0::nat))) ! 1 = [[104, 105]]"
    using t2 pos unfolding y by blast
  then have b: "0 < length (steps (final_state (generate_run ?g ''hi'' 1 0 [] (0::nat))))
      \<and> model_states (final_state (generate_run ?g ''hi'' 1 0 [] (0::nat))) ! 1 = [[104, 105]]"
    by simp
  have c: "generate ?g ''hi'' 1 0 [] (0::nat) = Inl RuntimeError" by code_simp
  have nm: "fst (model ?g xs m) \<noteq> Inl RuntimeError" for xs m
    by (simp add: stub_generator_def)
  have d: "\<exists>logits r. decoding_strategy ?g (softmax ?g logits 0) r = Inl RuntimeError"
    using t2 c nm by blast
  have s: "\<forall>ps. is_argsort_desc ps (stable_argsort_desc ps)" using argsort_stable by blast
  have s1: "is_argsort_desc ?P (stable_argsort_desc ?P)" by (rule argsort_stable)
  have dist: "is_distribution ?P" by (simp add: is_distribution_def)
  have e: "sample stable_argsort_desc draw_first (TopKDecoding 0) ?P (0::nat) = Inl RuntimeError"
    using t1 s1 by blast
  have k3: "(-3::int) \<le> - int (length ?P)" by simp
  have f: "(\<exists>tok r1. sample stable_argsort_desc draw_first (TopPDecoding 2) ?P (0::nat) = Inr (tok, r1))
      \<and> sample stable_argsort_desc draw_first (TopKDecoding (-3)) ?P (0::nat) = Inl RuntimeError
      \<and> sample stable_argsort_desc draw_first (TopKTopPDecoding (-3) 2) ?P (0::nat) = Inl RuntimeError"
    using t1 dist s k3 by blast
  have k1: "\<not> ((-1::int) = 0 \<or> (-1::int) \<le> - int (length ?P))" by simp
  have h: "(\<exists>tok r1. sample stable_argsort_desc draw_first (TopPDecoding (-1)) ?P (0::nat) = Inr (tok, r1))
      \<and> (\<exists>tok r1. sample stable_argsort_desc draw_first (TopKDecoding (-1)) ?P (0::nat) = Inr (tok, r1))
      \<and> (\<exists>tok r1. sample stable_argsort_desc draw_first (TopKTopPDecoding (-1) (-1)) ?P (0::nat)
            = Inr (tok, r1))"
    using t2 dist s k1 by blast
  show ?thesis using le pos a b c d s1 dist e k3 f h by blast
qed

text \<open>The claim as it was stated fails: with \<open>k = 0\<close>, a negative step budget and
  temperature 0 the call returns the decoded prompt and raises nothing; with \<open>k = 0\<close> and
  a step budget of 1 the error is raised in the first iteration, after the model has
  been invoked, and it is the RuntimeError of the sampling step; with \<open>p = 2\<close> and
  temperature \<open>-1\<close> the call returns the prompt and one more token.\<close>

theorem eager_validation_counterexample:
  "generate (stub_generator 1 1024 (TopKDecoding 0) [1/2, 1/2]) ''hi'' (-1) 0 [] (0::nat)
     = Inr (map char_of [104, 105 :: nat])
   \<and> generate (stub_generator 1 1024 (TopKDecoding 0) [1/2, 1/2]) ''hi'' 1 1 [] (0::nat)
     = Inl RuntimeError
   \<and> map model_input (steps (final_state
        (generate_run (stub_generator 1 1024 (TopKDecoding 0) [1/2, 1/2]) ''hi'' 1 1 [] (0::nat))))
     = [[104, 105]]
   \<and> model_state (final_state
        (generate_run (stub_generator 1 1024 (TopKDecoding 0) [1/2, 1/2]) ''hi'' 1 1 [] (0::nat)))
     = [[104, 105]]
   \<and> generate (stub_generator 1 1024 (TopPDecoding 2) [1/2, 1/2]) ''hi'' 1 (-1) [] (0::nat)
     = Inr (map char_of [104, 105, 0 :: nat])"
  by code_simp

end
